theory Spec2Isabelle
  imports Main "HOL-Library.Word"
begin

section \<open>goget: a bounded-parallel batch downloader (goget.go)\<close>

text \<open>
  The program has four parts, all in \<^verbatim>\<open>goget.go\<close>: \<^verbatim>\<open>prepUrl\<close> (name allocation),
  \<^verbatim>\<open>getUrl\<close> (one download into one temporary file), the dispatch loops of
  \<^verbatim>\<open>main\<close>, and the deferred closure of \<^verbatim>\<open>main\<close> that renames the temporary
  files into place and removes the working directory.
\<close>

subsection \<open>The string functions of the Go library that \<^verbatim>\<open>prepUrl\<close> calls\<close>

text \<open>\<^verbatim>\<open>strings.HasPrefix(s, prefix)\<close>: \<^verbatim>\<open>len(s) >= len(prefix) && s[:len(prefix)] == prefix\<close>.\<close>

definition HasPrefix :: "string \<Rightarrow> string \<Rightarrow> bool" where
  "HasPrefix s p = (length p \<le> length s \<and> take (length p) s = p)"

text \<open>\<^verbatim>\<open>strings.Index(s, sep)\<close>: the position of the first instance of \<^verbatim>\<open>sep\<close> in
  \<^verbatim>\<open>s\<close>; Go's \<^verbatim>\<open>-1\<close> is \<open>None\<close>.\<close>

fun Index :: "string \<Rightarrow> string \<Rightarrow> nat option" where
  "Index [] sep = (if sep = [] then Some 0 else None)"
| "Index (c # s) sep =
     (if HasPrefix (c # s) sep then Some 0 else map_option Suc (Index s sep))"

text \<open>\<^verbatim>\<open>strings.Cut(s, sep)\<close>: the text before and after the first instance of
  \<^verbatim>\<open>sep\<close>; when there is none, \<^verbatim>\<open>(s, "", false)\<close>.\<close>

definition Cut :: "string \<Rightarrow> string \<Rightarrow> string \<times> string \<times> bool" where
  "Cut s sep =
     (case Index s sep of
        Some i \<Rightarrow> (take i s, drop (i + length sep) s, True)
      | None \<Rightarrow> (s, [], False))"

text \<open>\<^verbatim>\<open>strings.Split(s, sep)\<close>: the substrings between the instances of \<^verbatim>\<open>sep\<close>;
  with an empty separator, the characters of \<^verbatim>\<open>s\<close>.\<close>

function Split :: "string \<Rightarrow> string \<Rightarrow> string list" where
  "Split s sep =
     (if sep = [] then map (\<lambda>c. [c]) s
      else case Index s sep of
             None \<Rightarrow> [s]
           | Some m \<Rightarrow> take m s # Split (drop (m + length sep) s) sep)"
  by pat_completeness auto
termination
proof (relation "measure (\<lambda>(s, sep). length s)")
  show "wf (measure (\<lambda>(s, sep). length s))" by simp
next
  fix s sep :: string and m :: nat
  assume "sep \<noteq> []" and "Index s sep = Some m"
  then have "s \<noteq> []" by (cases s) auto
  with \<open>sep \<noteq> []\<close> have "length s - (m + length sep) < length s"
    by (cases s; cases sep) auto
  then show "((drop (m + length sep) s, sep), (s, sep)) \<in> measure (\<lambda>(s, sep). length s)"
    by simp
qed

subsection \<open>URL normalisation and the destination name (\<^verbatim>\<open>prepUrl\<close>, lines 94-109)\<close>

text \<open>Lines 94-96: a URL without an \<^verbatim>\<open>http://\<close> or \<^verbatim>\<open>https://\<close> prefix gets
  \<^verbatim>\<open>http://\<close> in front.\<close>

definition normUrl :: "string \<Rightarrow> string" where
  "normUrl url =
     (if \<not> (HasPrefix url ''http://'' \<or> HasPrefix url ''https://'')
      then ''http://'' @ url else url)"

text \<open>Lines 101-109: the destination name of a URL. \<^verbatim>\<open>parts[len(parts)-1]\<close> is
  \<open>last parts\<close>: \<^verbatim>\<open>Split\<close> with a non-empty separator never returns an empty slice
  (lemma \<open>Split_nonempty\<close>).\<close>

definition fname_of :: "string \<Rightarrow> string" where
  "fname_of url =
     (let (_, fname, _) = Cut url ''://'';
          (_, fname, _) = Cut fname ''/'';
          parts = Split fname ''/'';
          fname = last parts
      in if fname = '''' then ''index.html'' else fname)"

text \<open>The destination name in the words of the specification: remove the scheme, remove
  the host (everything up to the first \<^verbatim>\<open>/\<close>), take the final \<^verbatim>\<open>/\<close>-delimited
  segment of what is left, and fall back to \<^verbatim>\<open>index.html\<close> when it is empty.\<close>

definition final_segment :: "string \<Rightarrow> string" where
  "final_segment s = rev (takeWhile (\<lambda>c. c \<noteq> CHR ''/'') (rev s))"

definition strip_scheme :: "string \<Rightarrow> string" where
  "strip_scheme url =
     (if HasPrefix url ''http://'' then drop 7 url
      else if HasPrefix url ''https://'' then drop 8 url else url)"

definition strip_host :: "string \<Rightarrow> string" where
  "strip_host s = dropWhile (\<lambda>c. c \<noteq> CHR ''/'') s"

definition spec_fname :: "string \<Rightarrow> string" where
  "spec_fname url =
     (let seg = final_segment (strip_host (strip_scheme url))
      in if seg = '''' then ''index.html'' else seg)"

subsection \<open>Errors, bytes and the file system\<close>

text \<open>The error values the program tells apart (\<^verbatim>\<open>io.EOF\<close>, \<^verbatim>\<open>io.ErrUnexpectedEOF\<close>,
  \<^verbatim>\<open>fs.ErrNotExist\<close>) and the other ways a system call fails.\<close>

datatype error =
    EOF | ErrUnexpectedEOF | ErrNotExist | ErrExist | ErrNotEmpty | ErrIsDir
  | ErrOther string

type_synonym path = string
type_synonym byte = "8 word"

text \<open>The file system the program sees: the regular files with their contents, as an
  association list with one pair for each path, and the directories.\<close>

record filesys =
  files :: "(path \<times> byte list) list"
  dirs :: "path list"

definition is_file :: "filesys \<Rightarrow> path \<Rightarrow> bool" where
  "is_file fs p = (p \<in> set (map fst (files fs)))"

definition unlink :: "path \<Rightarrow> filesys \<Rightarrow> filesys" where
  "unlink p fs = fs\<lparr>files := filter (\<lambda>(q, _). q \<noteq> p) (files fs)\<rparr>"

definition put_file :: "path \<Rightarrow> byte list \<Rightarrow> filesys \<Rightarrow> filesys" where
  "put_file p b fs = fs\<lparr>files := (p, b) # filter (\<lambda>(q, _). q \<noteq> p) (files fs)\<rparr>"

definition in_dir :: "path \<Rightarrow> path \<Rightarrow> bool" where
  "in_dir d p = HasPrefix p (d @ ''/'')"

text \<open>\<^verbatim>\<open>os.Remove(name)\<close>: removes a file, or a directory that is empty.\<close>

definition os_Remove :: "path \<Rightarrow> filesys \<Rightarrow> error + filesys" where
  "os_Remove p fs =
     (if is_file fs p then Inr (unlink p fs)
      else if p \<in> set (dirs fs) then
        (if list_ex (\<lambda>(q, _). in_dir p q) (files fs) \<or> list_ex (in_dir p) (dirs fs)
         then Inl ErrNotEmpty
         else Inr (fs\<lparr>dirs := removeAll p (dirs fs)\<rparr>))
      else Inl ErrNotExist)"

text \<open>\<^verbatim>\<open>os.Rename(oldpath, newpath)\<close> for a regular file: it fails when the old path
  is no file and when the new path is a directory, and replaces a file at the new path.\<close>

definition os_Rename :: "path \<Rightarrow> path \<Rightarrow> filesys \<Rightarrow> error + filesys" where
  "os_Rename old new fs =
     (case map_of (files fs) old of
        None \<Rightarrow> Inl ErrNotExist
      | Some b \<Rightarrow>
          if new \<in> set (dirs fs) then Inl ErrIsDir
          else Inr (put_file new b (unlink old fs)))"

text \<open>\<^verbatim>\<open>os.Create(name)\<close>: creates or truncates the file. The operating system may
  refuse (\<open>refusal\<close>).\<close>

definition os_Create :: "path \<Rightarrow> error option \<Rightarrow> filesys \<Rightarrow> error + filesys" where
  "os_Create p refusal fs =
     (case refusal of Some e \<Rightarrow> Inl e | None \<Rightarrow> Inr (put_file p [] fs))"

text \<open>\<^verbatim>\<open>os.CreateTemp(dir, pattern)\<close>: a new empty file in \<^verbatim>\<open>dir\<close> whose name is the
  pattern with its last \<^verbatim>\<open>*\<close> replaced by a random string. The argument \<open>sys\<close> is
  what the operating system does: it refuses with an error, or \<open>Inr r\<close> is the random
  string the call settles on.\<close>

definition prefixAndSuffix :: "string \<Rightarrow> string \<times> string" where
  "prefixAndSuffix pattern =
     (if CHR ''*'' \<in> set pattern
      then (rev (drop 1 (dropWhile (\<lambda>c. c \<noteq> CHR ''*'') (rev pattern))),
            rev (takeWhile (\<lambda>c. c \<noteq> CHR ''*'') (rev pattern)))
      else (pattern, []))"

definition os_CreateTemp ::
  "path \<Rightarrow> string \<Rightarrow> error + string \<Rightarrow> filesys \<Rightarrow> error + (path \<times> filesys)" where
  "os_CreateTemp dir pattern sys fs =
     (if CHR ''/'' \<in> set pattern then Inl (ErrOther ''pattern contains path separator'')
      else case sys of
        Inl e \<Rightarrow> Inl e
      | Inr r \<Rightarrow>
          let (prefix, suffix) = prefixAndSuffix pattern;
              p = dir @ ''/'' @ prefix @ r @ suffix
          in if dir \<notin> set (dirs fs) then Inl ErrNotExist
             else if is_file fs p \<or> p \<in> set (dirs fs) then Inl ErrExist
             else Inr (p, put_file p [] fs))"

text \<open>\<^verbatim>\<open>os.MkdirTemp(".", ".goget*")\<close>, in the same way.\<close>

definition os_MkdirTemp :: "error + string \<Rightarrow> filesys \<Rightarrow> error + (path \<times> filesys)" where
  "os_MkdirTemp sys fs =
     (case sys of
        Inl e \<Rightarrow> Inl e
      | Inr r \<Rightarrow>
          let d = ''./.goget'' @ r
          in if is_file fs d \<or> d \<in> set (dirs fs) then Inl ErrExist
             else Inr (d, fs\<lparr>dirs := d # dirs fs\<rparr>))"

subsection \<open>The registry (\<^verbatim>\<open>filename\<close>, \<^verbatim>\<open>filemap\<close>, lines 32-39)\<close>

record filename =
  n :: int
  name :: string
  tmpfiles :: "string list"

definition zero_filename :: filename where
  "zero_filename = \<lparr>n = 0, name = [], tmpfiles = []\<rparr>"

text \<open>\<^verbatim>\<open>filemap[url]\<close> as an expression: the zero value when the key is absent.\<close>

definition lookup :: "(string \<rightharpoonup> filename) \<Rightarrow> string \<Rightarrow> filename" where
  "lookup m url = (case m url of None \<Rightarrow> zero_filename | Some e \<Rightarrow> e)"

subsection \<open>What a run does to the outside, and its state\<close>

text \<open>The effects in the order they happen: a line on standard output, an error or a
  message printed on standard error, a value sent on the completion channel, a call of
  \<^verbatim>\<open>os.Rename\<close> with its result.\<close>

datatype effect =
    Println string
  | Eprintln error
  | EprintMsg string
  | Send
  | Renamed path path "error option"

datatype fault = IndexOutOfRange | Stuck

datatype pc = Check | Spawn | Drain | Returned

text \<open>The state of \<^verbatim>\<open>main\<close>: the global \<^verbatim>\<open>filemap\<close>, the file system, the output so
  far, the locals \<^verbatim>\<open>urls\<close> and \<^verbatim>\<open>routines\<close>, the number of values in the channel
  \<^verbatim>\<open>ch\<close>, the \<^verbatim>\<open>getUrl\<close> goroutines that were started and have not sent their
  completion value yet (URL, temporary file, number of the download), the URLs the
  dispatch loop still has to go through, where \<^verbatim>\<open>main\<close> stands, and the number of
  goroutines started so far.\<close>

record state =
  filemap :: "string \<rightharpoonup> filename"
  fsys :: filesys
  out :: "effect list"
  urls :: "string list"
  routines :: int
  ch :: nat
  running :: "(string \<times> path \<times> nat) list"
  todo :: "string list"
  pc :: pc
  spawned :: nat

definition init_state :: "filesys \<Rightarrow> state" where
  "init_state fs =
     \<lparr>filemap = Map.empty, fsys = fs, out = [], urls = [], routines = 0, ch = 0,
      running = [], todo = [], pc = Check, spawned = 0\<rparr>"

subsection \<open>\<^verbatim>\<open>prepUrl\<close> (lines 93-121) and the allocation loop (lines 167-174)\<close>

text \<open>The deferred \<^verbatim>\<open>filemap[url] = fmentry\<close> of line 99 runs on both returns, so the
  failing return stores the entry it read.\<close>

definition prepUrl ::
  "string \<Rightarrow> path \<Rightarrow> error + string \<Rightarrow> state \<Rightarrow> (error + string) \<times> state" where
  "prepUrl url d sys s =
     (let url = normUrl url;
          fmentry = lookup (filemap s) url;
          fname = fname_of url
      in case os_CreateTemp d (fname @ ''*'') sys (fsys s) of
           Inl err \<Rightarrow> (Inl err, s\<lparr>filemap := (filemap s)(url \<mapsto> fmentry)\<rparr>)
         | Inr (tmpfp, fs') \<Rightarrow>
             (Inr url,
              s\<lparr>fsys := fs',
                filemap := (filemap s)(url \<mapsto>
                  fmentry\<lparr>name := fname, tmpfiles := tmpfiles fmentry @ [tmpfp]\<rparr>)\<rparr>))"

text \<open>The loop over the arguments; \<open>sys i\<close> is what the operating system does at the
  \<open>i\<close>-th call of \<^verbatim>\<open>os.CreateTemp\<close>.\<close>

fun alloc_loop ::
  "(nat \<Rightarrow> error + string) \<Rightarrow> path \<Rightarrow> nat \<Rightarrow> string list \<Rightarrow> state \<Rightarrow> state" where
  "alloc_loop sys tmpdir i [] s = s"
| "alloc_loop sys tmpdir i (arg # args) s =
     (case prepUrl arg tmpdir (sys i) s of
        (Inl err, s') \<Rightarrow>
          alloc_loop sys tmpdir (Suc i) args (s'\<lparr>out := out s' @ [Eprintln err]\<rparr>)
      | (Inr url, s') \<Rightarrow>
          alloc_loop sys tmpdir (Suc i) args (s'\<lparr>urls := urls s' @ [url]\<rparr>))"

subsection \<open>\<^verbatim>\<open>getUrl\<close> (lines 41-91)\<close>

text \<open>A response body is a byte stream: the bytes it delivers and what every read
  returns once they are used up, \<^verbatim>\<open>io.EOF\<close> at a clean end of the stream and the
  transport's error otherwise.\<close>

record body =
  data :: "byte list"
  ending :: error

text \<open>\<^verbatim>\<open>io.ReadFull(reader, buf)\<close> with a buffer of \<open>sz\<close> bytes: a full buffer and no
  error, or the bytes that are left and the error; \<^verbatim>\<open>io.EOF\<close> after some bytes is
  \<^verbatim>\<open>io.ErrUnexpectedEOF\<close>.\<close>

definition ReadFull :: "body \<Rightarrow> nat \<Rightarrow> (byte list \<times> error option) \<times> body" where
  "ReadFull reader sz =
     (if sz \<le> length (data reader)
      then ((take sz (data reader), None), reader\<lparr>data := drop sz (data reader)\<rparr>)
      else ((data reader,
             Some (if data reader \<noteq> [] \<and> ending reader = EOF then ErrUnexpectedEOF
                   else ending reader)),
            reader\<lparr>data := []\<rparr>))"

text \<open>What the outside does to one download: whether \<^verbatim>\<open>os.Create\<close> is refused, what
  \<^verbatim>\<open>http.Get\<close> returns, the error of the \<open>k\<close>-th call of \<^verbatim>\<open>writer.Write\<close> if it
  fails, and, if the final \<^verbatim>\<open>writer.Flush\<close> fails, its error and the number of bytes
  that reached the file.\<close>

record conn =
  create_refusal :: "error option"
  get_res :: "error + body"
  write_err :: "nat \<Rightarrow> error option"
  flush_res :: "(error \<times> nat) option"

text \<open>The copy loop of lines 72-89. The \<^verbatim>\<open>readErr\<close> that line 73 declares with
  \<^verbatim>\<open>:=\<close> is a new variable of the loop body, so the loop condition reads the outer
  \<^verbatim>\<open>readErr\<close>, which stays \<^verbatim>\<open>nil\<close>: the loop ends at a \<^verbatim>\<open>break\<close> only. The result
  is the error that made the loop call \<^verbatim>\<open>rm\<close> (none at end of stream) and the bytes
  handed to the writer; \<open>None\<close> is a loop that never ends.\<close>

partial_function (option) copy_loop ::
  "(nat \<Rightarrow> error option) \<Rightarrow> body \<Rightarrow> nat \<Rightarrow> byte list \<Rightarrow> (error option \<times> byte list) option" where
  "copy_loop werr reader k acc =
     (let ((buf, readErr), reader') = ReadFull reader 4096
      in if readErr = Some EOF then Some (None, acc)
         else if readErr \<noteq> None \<and> readErr \<noteq> Some ErrUnexpectedEOF then Some (readErr, acc)
         else case werr k of
                Some writeErr \<Rightarrow> Some (Some writeErr, acc)
              | None \<Rightarrow> copy_loop werr reader' (Suc k) (acc @ buf))"

declare copy_loop.simps [code]

text \<open>\<^verbatim>\<open>rm\<close> (lines 44-46): \<^verbatim>\<open>os.Remove(f)\<close>, its error dropped.\<close>

definition rm :: "path \<Rightarrow> filesys \<Rightarrow> filesys" where
  "rm f fs = (case os_Remove f fs of Inl _ \<Rightarrow> fs | Inr fs' \<Rightarrow> fs')"

text \<open>The body of \<^verbatim>\<open>getUrl\<close> up to its return: the file system afterwards and the
  lines printed. After a \<^verbatim>\<open>break\<close> with \<^verbatim>\<open>rm\<close> the file is unlinked, and the flush
  of line 90 shows nowhere in the file system.\<close>

definition getUrl_body ::
  "bool \<Rightarrow> string \<Rightarrow> path \<Rightarrow> conn \<Rightarrow> filesys \<Rightarrow> (filesys \<times> effect list) option" where
  "getUrl_body qflag url f c fs =
     (let pr = (if \<not> qflag then [Println (''GET '' @ url)] else [])
      in case os_Create f (create_refusal c) fs of
           Inl err \<Rightarrow> Some (rm f fs, pr @ [Eprintln err])
         | Inr fs1 \<Rightarrow>
             let pr1 = pr @ [Println (''created '' @ f)]
             in case get_res c of
                  Inl err \<Rightarrow> Some (rm f fs1, pr1 @ [Eprintln err])
                | Inr reader \<Rightarrow>
                    (case copy_loop (write_err c) reader 0 [] of
                       None \<Rightarrow> None
                     | Some (Some err, acc) \<Rightarrow> Some (rm f fs1, pr1 @ [Eprintln err])
                     | Some (None, acc) \<Rightarrow>
                         Some (put_file f
                                 (case flush_res c of None \<Rightarrow> acc | Some (_, m) \<Rightarrow> take m acc)
                                 fs1,
                               pr1)))"

text \<open>\<^verbatim>\<open>getUrl\<close>: the body, then the deferred calls in reverse order, \<^verbatim>\<open>fp.Close()\<close>
  (line 58) and the send on the channel (line 42).\<close>

definition getUrl ::
  "bool \<Rightarrow> string \<Rightarrow> path \<Rightarrow> conn \<Rightarrow> filesys \<Rightarrow> (filesys \<times> effect list) option" where
  "getUrl qflag url f c fs =
     map_option (\<lambda>(fs', tr). (fs', tr @ [Send])) (getUrl_body qflag url f c fs)"

subsection \<open>The dispatch loops of \<^verbatim>\<open>main\<close> (lines 176-194)\<close>

text \<open>\<^verbatim>\<open>main\<close> and the goroutines run interleaved. A schedule is the list of who moves
  next: \<^verbatim>\<open>main\<close> by one step, or the \<open>k\<close>-th running \<^verbatim>\<open>getUrl\<close>, which does its work
  and sends its completion value. A \<^verbatim>\<open>getUrl\<close> touches its own temporary file only, so
  its work counts as one step. \<open>Stuck\<close> is a move that cannot happen now: a receive from
  the empty channel, a send into the full one, a \<^verbatim>\<open>getUrl\<close> that never returns.\<close>

datatype event = MainStep | FetcherDone nat

text \<open>One step of \<^verbatim>\<open>main\<close>: at \<open>Check\<close> line 179-182 (or the end of the \<^verbatim>\<open>range\<close>),
  at \<open>Spawn\<close> lines 183-188, at \<open>Drain\<close> one round of lines 191-194.\<close>

definition main_step :: "int \<Rightarrow> state \<Rightarrow> fault + state" where
  "main_step pflag s =
     (case pc s of
        Check \<Rightarrow>
          (case todo s of
             [] \<Rightarrow> Inr (s\<lparr>pc := Drain\<rparr>)
           | url # _ \<Rightarrow>
               if routines s \<ge> pflag
               then (if ch s = 0 then Inl Stuck
                     else Inr (s\<lparr>ch := ch s - 1, routines := routines s - 1, pc := Spawn\<rparr>))
               else Inr (s\<lparr>pc := Spawn\<rparr>))
      | Spawn \<Rightarrow>
          (case todo s of
             [] \<Rightarrow> Inl Stuck
           | url # rest \<Rightarrow>
               (case filemap s url of
                  None \<Rightarrow> Inr (s\<lparr>todo := rest, pc := Check\<rparr>)
                | Some fmentry \<Rightarrow>
                    if 0 \<le> n fmentry \<and> nat (n fmentry) < length (tmpfiles fmentry)
                    then Inr (s\<lparr>running := running s
                                   @ [(url, tmpfiles fmentry ! nat (n fmentry), spawned s)],
                                spawned := Suc (spawned s),
                                filemap := (filemap s)(url \<mapsto> fmentry\<lparr>n := n fmentry + 1\<rparr>),
                                routines := routines s + 1,
                                todo := rest, pc := Check\<rparr>)
                    else Inl IndexOutOfRange))
      | Drain \<Rightarrow>
          if routines s > 0
          then (if ch s = 0 then Inl Stuck
                else Inr (s\<lparr>ch := ch s - 1, routines := routines s - 1\<rparr>))
          else Inr (s\<lparr>pc := Returned\<rparr>)
      | Returned \<Rightarrow> Inl Stuck)"

text \<open>The \<open>k\<close>-th running \<^verbatim>\<open>getUrl\<close> runs to its end; \<open>cs i\<close> is what the outside
  does to download number \<open>i\<close>. The channel holds \<^verbatim>\<open>*pflag\<close> values (line 176).\<close>

definition fetcher_step :: "int \<Rightarrow> bool \<Rightarrow> (nat \<Rightarrow> conn) \<Rightarrow> nat \<Rightarrow> state \<Rightarrow> fault + state" where
  "fetcher_step pflag qflag cs k s =
     (if k < length (running s) then
        (case running s ! k of (url, f, i) \<Rightarrow>
           (case getUrl qflag url f (cs i) (fsys s) of
              None \<Rightarrow> Inl Stuck
            | Some (fs', tr) \<Rightarrow>
                let sends = length (filter (\<lambda>e. e = Send) tr)
                in if int (ch s + sends) > pflag then Inl Stuck
                   else Inr (s\<lparr>fsys := fs',
                               out := out s @ filter (\<lambda>e. e \<noteq> Send) tr,
                               ch := ch s + sends,
                               running := take k (running s) @ drop (Suc k) (running s)\<rparr>)))
      else Inl Stuck)"

definition step :: "int \<Rightarrow> bool \<Rightarrow> (nat \<Rightarrow> conn) \<Rightarrow> event \<Rightarrow> state \<Rightarrow> fault + state" where
  "step pflag qflag cs ev s =
     (case ev of
        MainStep \<Rightarrow> main_step pflag s
      | FetcherDone k \<Rightarrow> fetcher_step pflag qflag cs k s)"

fun exec :: "int \<Rightarrow> bool \<Rightarrow> (nat \<Rightarrow> conn) \<Rightarrow> event list \<Rightarrow> state \<Rightarrow> fault + state" where
  "exec pflag qflag cs [] s = Inr s"
| "exec pflag qflag cs (ev # evs) s =
     (case step pflag qflag cs ev s of
        Inl flt \<Rightarrow> Inl flt
      | Inr s' \<Rightarrow> exec pflag qflag cs evs s')"

subsection \<open>The deferred closure of \<^verbatim>\<open>main\<close> (lines 138-165) and \<^verbatim>\<open>main\<close>\<close>

text \<open>\<^verbatim>\<open>rename\<close> (lines 139-154). The result of \<^verbatim>\<open>os.Rename\<close> is dropped, and the
  \<^verbatim>\<open>err\<close> that line 151 tests is the variable of \<^verbatim>\<open>main\<close> that line 133 declares;
  it is the argument \<open>err\<close> here. \<^verbatim>\<open>errors.Is(err, fs.ErrNotExist)\<close> is equality with
  \<open>ErrNotExist\<close>. An empty \<^verbatim>\<open>tmpfiles\<close> makes \<^verbatim>\<open>tmpfiles[0]\<close> panic.\<close>

definition rename :: "error option \<Rightarrow> string \<Rightarrow> state \<Rightarrow> fault + state" where
  "rename err url s =
     (let fentry = lookup (filemap s) url
      in case tmpfiles fentry of
           [] \<Rightarrow> Inl IndexOutOfRange
         | t # rest \<Rightarrow>
             let r = os_Rename t (name fentry) (fsys s);
                 fs' = (case r of Inl _ \<Rightarrow> fsys s | Inr fs' \<Rightarrow> fs');
                 called = Renamed t (name fentry) (case r of Inl e \<Rightarrow> Some e | Inr _ \<Rightarrow> None);
                 report = (case err of
                             None \<Rightarrow> []
                           | Some e \<Rightarrow> if e \<noteq> ErrNotExist then [Eprintln e] else [])
             in Inr (s\<lparr>fsys := fs',
                       out := out s @ [called] @ report,
                       filemap := (filemap s)(url \<mapsto> fentry\<lparr>tmpfiles := rest\<rparr>)\<rparr>))"

text \<open>Lines 156-158.\<close>

fun publish_loop :: "error option \<Rightarrow> string list \<Rightarrow> state \<Rightarrow> fault + state" where
  "publish_loop err [] s = Inr s"
| "publish_loop err (url # rest) s =
     (case rename err url s of
        Inl flt \<Rightarrow> Inl flt
      | Inr s' \<Rightarrow> publish_loop err rest s')"

text \<open>The whole closure: the renames, then the removal of the working directory; the
  exit status is 1 when the removal fails (line 163) and 0 otherwise.\<close>

definition teardown :: "error option \<Rightarrow> path \<Rightarrow> state \<Rightarrow> fault + (int \<times> state)" where
  "teardown err tmpdir s =
     (case publish_loop err (urls s) s of
        Inl flt \<Rightarrow> Inl flt
      | Inr s1 \<Rightarrow>
          (case os_Remove tmpdir (fsys s1) of
             Inl e \<Rightarrow> Inr (1, s1\<lparr>out := out s1 @ [Eprintln e]\<rparr>)
           | Inr fs' \<Rightarrow> Inr (0, s1\<lparr>fsys := fs'\<rparr>)))"

text \<open>What the outside does during one run: at \<^verbatim>\<open>os.MkdirTemp\<close>, at the \<open>i\<close>-th
  \<^verbatim>\<open>os.CreateTemp\<close>, and to download number \<open>i\<close>.\<close>

record world =
  mkdir_sys :: "error + string"
  temp_sys :: "nat \<Rightarrow> error + string"
  conns :: "nat \<Rightarrow> conn"

text \<open>The state when the dispatch loop starts (lines 176-178): the channel is new and
  empty, no goroutine has been started.\<close>

definition dispatch_init :: "state \<Rightarrow> state" where
  "dispatch_init s =
     s\<lparr>todo := urls s, routines := 0, ch := 0, running := [], spawned := 0, pc := Check\<rparr>"

text \<open>\<^verbatim>\<open>main\<close> (lines 123-195) under a schedule: the exit status and the final state.
  When line 138 registers the closure, \<^verbatim>\<open>err\<close> is \<^verbatim>\<open>nil\<close>, and the \<^verbatim>\<open>err\<close> of line
  168 is a variable of the loop body, so \<^verbatim>\<open>err\<close> is still \<^verbatim>\<open>nil\<close> when the closure
  runs. A schedule that ends before \<^verbatim>\<open>main\<close> has left its loops is no run.\<close>

definition main ::
  "int \<Rightarrow> bool \<Rightarrow> string list \<Rightarrow> world \<Rightarrow> event list \<Rightarrow> filesys \<Rightarrow> fault + (int \<times> state)" where
  "main pflag qflag args w sched fs =
     (if pflag < 1
      then Inr (1, (init_state fs)
                     \<lparr>out := [EprintMsg ''can't do less than 1 parallel downloads'']\<rparr>)
      else case os_MkdirTemp (mkdir_sys w) fs of
             Inl err \<Rightarrow> Inr (1, (init_state fs)\<lparr>out := [Eprintln err]\<rparr>)
           | Inr (tmpdir, fs1) \<Rightarrow>
               let s1 = alloc_loop (temp_sys w) tmpdir 0 args (init_state fs1)
               in case exec pflag qflag (conns w) sched (dispatch_init s1) of
                    Inl flt \<Rightarrow> Inl flt
                  | Inr s2 \<Rightarrow>
                      if pc s2 \<noteq> Returned then Inl Stuck
                      else teardown None tmpdir s2)"

subsection \<open>Concrete inputs for the examples\<close>

text \<open>A download where everything succeeds and the body is \<open>b\<close>; a file system with
  the current directory only; a run where every system call succeeds, the \<open>i\<close>-th
  temporary name gets \<open>i + 1\<close> letters \<^verbatim>\<open>r\<close> and download \<open>i\<close> delivers the bytes
  \<open>i, 2, 3\<close>.\<close>

definition ok_conn :: "byte list \<Rightarrow> conn" where
  "ok_conn b =
     \<lparr>create_refusal = None, get_res = Inr \<lparr>data = b, ending = EOF\<rparr>,
      write_err = (\<lambda>k. None), flush_res = None\<rparr>"

definition fs0 :: filesys where
  "fs0 = \<lparr>files = [], dirs = [''.'']\<rparr>"

definition w0 :: world where
  "w0 = \<lparr>mkdir_sys = Inr ''1'',
          temp_sys = (\<lambda>i. Inr (replicate (Suc i) CHR ''r'')),
          conns = (\<lambda>i. ok_conn [of_nat i, 2, 3])\<rparr>"

text \<open>The state after the allocation of two URLs in the directory \<^verbatim>\<open>d\<close>, and a
  schedule that runs their downloads one after the other.\<close>

definition alloc2 :: state where
  "alloc2 = alloc_loop (temp_sys w0) ''d'' 0 [''a.com/x'', ''b.com/y'']
              (init_state \<lparr>files = [], dirs = [''.'', ''d'']\<rparr>)"

definition sched2 :: "event list" where
  "sched2 = [MainStep, MainStep, FetcherDone 0, MainStep, MainStep, FetcherDone 0,
             MainStep, MainStep, MainStep]"

subsection \<open>Invariants of the dispatch loops\<close>

text \<open>The counter \<^verbatim>\<open>routines\<close> is the number of goroutines that have not sent yet plus
  the number of values waiting in the channel; it never exceeds \<^verbatim>\<open>*pflag\<close>, is below
  it when \<^verbatim>\<open>main\<close> is about to start a goroutine, and is 0 when \<^verbatim>\<open>main\<close> has left
  the second loop.\<close>

definition inflight_inv :: "int \<Rightarrow> state \<Rightarrow> bool" where
  "inflight_inv pflag s =
     (int (length (running s)) + int (ch s) = routines s
      \<and> routines s \<le> pflag
      \<and> (pc s = Spawn \<longrightarrow> routines s < pflag)
      \<and> (pc s = Returned \<longrightarrow> routines s = 0))"

subsection \<open>Invariants of the registry\<close>

text \<open>The temporary file of the \<open>i\<close>-th entry of the dispatch list \<open>us\<close>: in the
  queue of its URL, the path at the number of earlier occurrences of that URL.\<close>

definition slot_of :: "(string \<rightharpoonup> filename) \<Rightarrow> string list \<Rightarrow> nat \<Rightarrow> path" where
  "slot_of fm us i = tmpfiles (lookup fm (us ! i)) ! count_list (take i us) (us ! i)"

definition slots :: "(string \<rightharpoonup> filename) \<Rightarrow> string list \<Rightarrow> path list" where
  "slots fm us = map (slot_of fm us) [0..<length us]"

text \<open>During allocation: every URL has as many queued paths as it has occurrences on
  the dispatch list, its count is 0, and every URL on the list has an entry.\<close>

definition alloc_reg_inv :: "state \<Rightarrow> bool" where
  "alloc_reg_inv s =
     ((\<forall>u. length (tmpfiles (lookup (filemap s) u)) = count_list (urls s) u)
      \<and> (\<forall>u. n (lookup (filemap s) u) = 0)
      \<and> (\<forall>u. u \<in> set (urls s) \<longrightarrow> filemap s u \<noteq> None))"

text \<open>During dispatch, from the state \<open>s1\<close> at its start: \<^verbatim>\<open>main\<close> has gone through
  the first \<open>spawned s\<close> URLs of the list, and the registry differs from the one at the
  start in the counts only, which are the occurrences gone through.\<close>

definition reg_inv :: "state \<Rightarrow> state \<Rightarrow> bool" where
  "reg_inv s1 s =
     (urls s = urls s1
      \<and> spawned s \<le> length (urls s1)
      \<and> todo s = drop (spawned s) (urls s1)
      \<and> (pc s = Drain \<or> pc s = Returned \<longrightarrow> todo s = [])
      \<and> (\<forall>u. filemap s u
             = map_option (\<lambda>e. e\<lparr>n := int (count_list (take (spawned s) (urls s1)) u)\<rparr>)
                 (filemap s1 u)))"

text \<open>The calls of \<^verbatim>\<open>os.Rename\<close> in an output, as pairs of old and new path.\<close>

fun renames :: "effect list \<Rightarrow> (path \<times> path) list" where
  "renames [] = []"
| "renames (Renamed old new _ # es) = (old, new) # renames es"
| "renames (_ # es) = renames es"

text \<open>What a call of \<^verbatim>\<open>rename\<close> does to the file system, its result dropped.\<close>

definition try_rename :: "path \<times> path \<Rightarrow> filesys \<Rightarrow> filesys" where
  "try_rename = (\<lambda>(old, new) fs. case os_Rename old new fs of Inl _ \<Rightarrow> fs | Inr fs' \<Rightarrow> fs')"

text \<open>The state of \<^verbatim>\<open>main\<close> when the allocation loop is done (line 174).\<close>

definition allocated :: "world \<Rightarrow> string list \<Rightarrow> filesys \<Rightarrow> state" where
  "allocated w args fs =
     (case os_MkdirTemp (mkdir_sys w) fs of
        Inl _ \<Rightarrow> init_state fs
      | Inr (tmpdir, fs1) \<Rightarrow> alloc_loop (temp_sys w) tmpdir 0 args (init_state fs1))"

text \<open>A run where \<^verbatim>\<open>main\<close> starts one download, lets it finish and goes on.\<close>

definition sched1 :: "event list" where
  "sched1 = [MainStep, MainStep, FetcherDone 0, MainStep, MainStep, MainStep]"

text \<open>The same URL twice, with a schedule that runs the two downloads one after the
  other.\<close>

definition twice :: "string list" where
  "twice = [''a.com/x'', ''a.com/x'']"

subsection \<open>Invariants of the file system\<close>

text \<open>A download whose reads and writes all succeed and deliver the body \<open>b\<close>.\<close>

definition succeeds :: "conn \<Rightarrow> byte list \<Rightarrow> bool" where
  "succeeds c b =
     (create_refusal c = None \<and> get_res c = Inr \<lparr>data = b, ending = EOF\<rparr>
      \<and> (\<forall>k. write_err c k = None) \<and> flush_res c = None)"

text \<open>During allocation in the directory \<open>d\<close>, from the file system \<open>fsb\<close>: the
  temporary files of the dispatch list are distinct, they are empty files in \<open>d\<close>,
  nothing else has changed, and every URL on the list has its destination name.\<close>

definition alloc_fs_inv :: "path \<Rightarrow> filesys \<Rightarrow> state \<Rightarrow> bool" where
  "alloc_fs_inv d fsb s =
     (distinct (slots (filemap s) (urls s))
      \<and> (\<forall>t. t \<in> set (slots (filemap s) (urls s))
             \<longrightarrow> map_of (files (fsys s)) t = Some [] \<and> in_dir d t)
      \<and> (\<forall>q. q \<notin> set (slots (filemap s) (urls s))
             \<longrightarrow> map_of (files (fsys s)) q = map_of (files fsb) q)
      \<and> dirs (fsys s) = dirs fsb
      \<and> (\<forall>u. u \<in> set (urls s) \<longrightarrow> name (lookup (filemap s) u) = fname_of u))"

text \<open>The numbers of the downloads that are running.\<close>

definition pending :: "state \<Rightarrow> nat list" where
  "pending s = map (\<lambda>(url, f, i). i) (running s)"

text \<open>During dispatch, from the state \<open>s1\<close> at its start, with \<open>cs\<close> what the outside
  does to the downloads: only the temporary files of the dispatch list change; download
  \<open>i\<close> writes to the \<open>i\<close>-th of them; the file of a download that has not run to its end
  is still empty; the file of one that has, and whose reads and writes all succeeded,
  holds its body.\<close>

definition disp_fs_inv :: "(nat \<Rightarrow> conn) \<Rightarrow> state \<Rightarrow> state \<Rightarrow> bool" where
  "disp_fs_inv cs s1 s =
     (dirs (fsys s) = dirs (fsys s1)
      \<and> (\<forall>q. q \<notin> set (slots (filemap s1) (urls s1))
             \<longrightarrow> map_of (files (fsys s)) q = map_of (files (fsys s1)) q)
      \<and> (\<forall>url f i. (url, f, i) \<in> set (running s)
             \<longrightarrow> i < spawned s \<and> f = slots (filemap s1) (urls s1) ! i)
      \<and> distinct (pending s)
      \<and> (\<forall>i. i < length (urls s1) \<and> (spawned s \<le> i \<or> i \<in> set (pending s))
             \<longrightarrow> map_of (files (fsys s)) (slots (filemap s1) (urls s1) ! i) = Some [])
      \<and> (\<forall>i b. i < spawned s \<and> i \<notin> set (pending s) \<and> succeeds (cs i) b
             \<longrightarrow> map_of (files (fsys s)) (slots (filemap s1) (urls s1) ! i) = Some b))"

(*DEFS-END*)

subsection \<open>Facts about the string functions\<close>

declare Split.simps [simp del]

lemma Split_nonempty: "sep \<noteq> [] \<Longrightarrow> Split s sep \<noteq> []"
  by (subst Split.simps) (simp split: option.split)

lemma Index_char:
  "Index s [c] = (if c \<in> set s then Some (length (takeWhile (\<lambda>x. x \<noteq> c) s)) else None)"
  by (induction s) (auto simp: HasPrefix_def)

lemma Cut_char_after:
  "fst (snd (Cut s [c])) = drop 1 (dropWhile (\<lambda>x. x \<noteq> c) s)"
proof (cases "c \<in> set s")
  case True
  then show ?thesis
    by (simp add: Cut_def Index_char dropWhile_eq_drop drop_Suc tl_drop)
next
  case False
  then have "dropWhile (\<lambda>x. x \<noteq> c) s = []" by auto
  then have "drop 1 (dropWhile (\<lambda>x. x \<noteq> c) s) = []" by (simp only: drop_Nil)
  moreover have "fst (snd (Cut s [c])) = []"
    using False by (simp add: Cut_def Index_char)
  ultimately show ?thesis by (simp only:)
qed

lemma last_Split_char:
  "last (Split s [c]) = rev (takeWhile (\<lambda>x. x \<noteq> c) (rev s))"
proof (induction s "[c]" rule: Split.induct)
  case (1 s)
  show ?case
  proof (cases "c \<in> set s")
    case False
    then have "takeWhile (\<lambda>x. x \<noteq> c) (rev s) = rev s" by auto
    then have "rev (takeWhile (\<lambda>x. x \<noteq> c) (rev s)) = s" by (simp only: rev_rev_ident)
    moreover have "last (Split s [c]) = s"
      using False by (subst Split.simps) (simp add: Index_char)
    ultimately show ?thesis by (simp only:)
  next
    case True
    define m where "m = length (takeWhile (\<lambda>x. x \<noteq> c) s)"
    have idx: "Index s [c] = Some m"
      using True by (simp add: Index_char m_def)
    have s_eq: "s = take m s @ c # drop (Suc m) s"
    proof -
      have "s = takeWhile (\<lambda>x. x \<noteq> c) s @ dropWhile (\<lambda>x. x \<noteq> c) s" by simp
      moreover have "dropWhile (\<lambda>x. x \<noteq> c) s \<noteq> []" using True by simp
      moreover have "hd (dropWhile (\<lambda>x. x \<noteq> c) s) = c"
        using True hd_dropWhile[of "\<lambda>x. x \<noteq> c" s] by auto
      ultimately show ?thesis
        by (metis m_def takeWhile_eq_take dropWhile_eq_drop drop_Suc tl_drop hd_Cons_tl)
    qed
    have IH: "last (Split (drop (Suc m) s) [c])
              = rev (takeWhile (\<lambda>x. x \<noteq> c) (rev (drop (Suc m) s)))"
      using "1.hyps"[OF _ idx] by simp
    have "last (Split s [c]) = last (Split (drop (Suc m) s) [c])"
      by (subst Split.simps) (simp add: idx Split_nonempty)
    also have "\<dots> = rev (takeWhile (\<lambda>x. x \<noteq> c) (rev (drop (Suc m) s)))" by (rule IH)
    also have "\<dots> = rev (takeWhile (\<lambda>x. x \<noteq> c) (rev s))"
    proof -
      have "rev s = rev (drop (Suc m) s) @ c # rev (take m s)"
        by (subst s_eq) simp
      then show ?thesis
        by (metis (mono_tags, lifting) takeWhile_tail)
    qed
    finally show ?thesis .
  qed
qed

lemma Cut_http: "fst (snd (Cut (''http://'' @ r) ''://'')) = r"
  by (simp add: Cut_def HasPrefix_def)

lemma Cut_https: "fst (snd (Cut (''https://'' @ r) ''://'')) = r"
  by (simp add: Cut_def HasPrefix_def)

lemma final_segment_drop1:
  "final_segment (drop 1 (dropWhile (\<lambda>c. c \<noteq> CHR ''/'') r))
   = final_segment (dropWhile (\<lambda>c. c \<noteq> CHR ''/'') r)"
proof (cases "dropWhile (\<lambda>c. c \<noteq> CHR ''/'') r")
  case Nil
  then show ?thesis by (simp only: drop_Nil)
next
  case (Cons a t)
  then have "a = CHR ''/''"
    using hd_dropWhile[of "\<lambda>c. c \<noteq> CHR ''/''" r] by (metis list.distinct(1) list.sel(1))
  with Cons show ?thesis
    by (simp add: final_segment_def takeWhile_tail)
qed

lemma fname_of_after:
  "fname_of url =
     (let seg = final_segment (strip_host (fst (snd (Cut url ''://''))))
      in if seg = [] then ''index.html'' else seg)"
proof -
  have "fname_of url =
     (let seg = final_segment
                  (drop 1 (dropWhile (\<lambda>c. c \<noteq> CHR ''/'') (fst (snd (Cut url ''://'')))))
      in if seg = [] then ''index.html'' else seg)"
    unfolding fname_of_def final_segment_def
    by (simp add: case_prod_beta Let_def Cut_char_after last_Split_char)
  then show ?thesis by (simp only: final_segment_drop1 strip_host_def)
qed

lemma strip_scheme_http: "strip_scheme (''http://'' @ r) = r"
  by (simp add: strip_scheme_def HasPrefix_def)

lemma strip_scheme_https: "strip_scheme (''https://'' @ r) = r"
  by (simp add: strip_scheme_def HasPrefix_def)

subsection \<open>The destination name\<close>

text \<open>
  Claim C9. For every normalised URL (one that starts with \<^verbatim>\<open>http://\<close> or
  \<^verbatim>\<open>https://\<close>), the name that lines 101-109 of \<^verbatim>\<open>prepUrl\<close> derive is the final
  \<^verbatim>\<open>/\<close>-delimited segment of the URL with its scheme and host removed, and
  \<^verbatim>\<open>index.html\<close> when that segment is empty.
\<close>

theorem fname_of_spec:
  assumes "HasPrefix url ''http://'' \<or> HasPrefix url ''https://''"
  shows "fname_of url = spec_fname url"
proof -
  from assms consider (a) r where "url = ''http://'' @ r" | (b) r where "url = ''https://'' @ r"
    unfolding HasPrefix_def by (metis append_take_drop_id)
  then show ?thesis
  proof cases
    case a
    show ?thesis
      unfolding fname_of_after spec_fname_def a
      by (simp only: Cut_http strip_scheme_http)
  next
    case b
    then show ?thesis
      unfolding fname_of_after spec_fname_def b
      by (simp only: Cut_https strip_scheme_https)
  qed
qed

theorem fname_of_spec_witness:
  "(HasPrefix ''http://example.com/a/b.txt'' ''http://''
    \<or> HasPrefix ''http://example.com/a/b.txt'' ''https://'')
   \<and> fname_of ''http://example.com/a/b.txt'' = ''b.txt''"
proof -
  have h: "HasPrefix ''http://example.com/a/b.txt'' ''http://''
           \<or> HasPrefix ''http://example.com/a/b.txt'' ''https://''"
    by code_simp
  have "spec_fname ''http://example.com/a/b.txt'' = ''b.txt''" by code_simp
  with fname_of_spec[OF h] h show ?thesis by (simp only:)
qed

text \<open>The two examples of the specification, and a URL with no path at all.\<close>

lemma fname_of_examples:
  "fname_of ''http://example.com/'' = ''index.html''"
  "fname_of ''http://example.com/a/b.txt'' = ''b.txt''"
  "fname_of ''http://example.com'' = ''index.html''"
  by code_simp+

subsection \<open>The copy loop of \<^verbatim>\<open>getUrl\<close>\<close>

lemma ReadFull_full:
  "4096 \<le> length (data reader) \<Longrightarrow>
   ReadFull reader 4096
   = ((take 4096 (data reader), None), reader\<lparr>data := drop 4096 (data reader)\<rparr>)"
  by (simp add: ReadFull_def)

lemma ReadFull_short:
  "\<not> 4096 \<le> length (data reader) \<Longrightarrow>
   ReadFull reader 4096 =
     ((data reader,
       Some (if data reader \<noteq> [] \<and> ending reader = EOF then ErrUnexpectedEOF
             else ending reader)),
      reader\<lparr>data := []\<rparr>)"
  by (simp add: ReadFull_def)


text \<open>On a stream that ends in \<^verbatim>\<open>io.EOF\<close>, with every write accepted, the loop
  leaves at the end of the stream with all the bytes handed to the writer, in order.\<close>

lemma copy_loop_clean:
  "ending reader = EOF \<Longrightarrow> (\<forall>j. werr j = None) \<Longrightarrow>
   copy_loop werr reader k acc = Some (None, acc @ data reader)"
proof (induction "length (data reader)" arbitrary: reader k acc rule: less_induct)
  case less
  show ?case
  proof (cases "4096 \<le> length (data reader)")
    case True
    let ?r' = "reader\<lparr>data := drop 4096 (data reader)\<rparr>"
    have "length (data ?r') < length (data reader)" using True by simp
    moreover have "ending ?r' = EOF" using less.prems by simp
    ultimately have "copy_loop werr ?r' (Suc k) (acc @ take 4096 (data reader))
                     = Some (None, (acc @ take 4096 (data reader)) @ data ?r')"
      using less.prems(2) by (rule less.hyps)
    then show ?thesis
      using less.prems(2)
      by (subst copy_loop.simps) (simp add: ReadFull_full[OF True])
  next
    case False
    note short = ReadFull_short[OF False]
    show ?thesis
    proof (cases "data reader = []")
      case True
      with less.prems show ?thesis
        by (subst copy_loop.simps) (simp add: short)
    next
      case nonempty: False
      let ?r' = "reader\<lparr>data := []\<rparr>"
      have "length (data ?r') < length (data reader)" using nonempty by simp
      moreover have "ending ?r' = EOF" using less.prems by simp
      ultimately have "copy_loop werr ?r' (Suc k) (acc @ data reader)
                       = Some (None, (acc @ data reader) @ data ?r')"
        using less.prems(2) by (rule less.hyps)
      then show ?thesis
        using less.prems
        by (subst copy_loop.simps) (simp add: short nonempty)
    qed
  qed
qed

text \<open>The loop can also spin: once a stream has run dry and its reads keep returning
  \<^verbatim>\<open>io.ErrUnexpectedEOF\<close> (a body cut short of its announced length), every round reads
  nothing, takes lines 77-81 for no error, writes nothing and goes round again.\<close>

lemma copy_loop_spins_aux:
  assumes "copy_loop werr reader k acc = Some r"
  shows "\<not> (data reader = [] \<and> ending reader = ErrUnexpectedEOF \<and> (\<forall>j. werr j = None))"
proof (rule copy_loop.raw_induct
    [where P = "\<lambda>werr reader k acc r.
        \<not> (data reader = [] \<and> ending reader = ErrUnexpectedEOF \<and> (\<forall>j. werr j = None))",
     OF _ assms])
  fix loop werr reader k acc r
  assume IH: "\<And>werr reader k acc r. loop werr reader k acc = Some r \<Longrightarrow>
      \<not> (data reader = [] \<and> ending reader = ErrUnexpectedEOF \<and> (\<forall>j. werr j = None))"
    and eq: "(let ((buf, readErr), reader') = ReadFull reader 4096
      in if readErr = Some EOF then Some (None, acc)
         else if readErr \<noteq> None \<and> readErr \<noteq> Some ErrUnexpectedEOF
              then Some (readErr, acc)
              else case werr k of
                   None \<Rightarrow> loop werr reader' (Suc k) (acc @ buf)
                   | Some writeErr \<Rightarrow> Some (Some writeErr, acc)) = Some r"
  show "\<not> (data reader = [] \<and> ending reader = ErrUnexpectedEOF \<and> (\<forall>j. werr j = None))"
  proof
    assume bad: "data reader = [] \<and> ending reader = ErrUnexpectedEOF \<and> (\<forall>j. werr j = None)"
    then have w: "werr k = None" and d: "data reader = []"
      and e: "ending reader = ErrUnexpectedEOF" by simp_all
    have "loop werr (reader\<lparr>data := []\<rparr>) (Suc k) acc = Some r"
      using eq by (simp add: ReadFull_def w d e)
    from IH[OF this] bad show False by simp
  qed
qed

lemma copy_loop_spins:
  "copy_loop (\<lambda>j. None) \<lparr>data = [], ending = ErrUnexpectedEOF\<rparr> k acc = None"
  using copy_loop_spins_aux[of "\<lambda>j. None" "\<lparr>data = [], ending = ErrUnexpectedEOF\<rparr>" k acc]
  by (cases "copy_loop (\<lambda>j. None) \<lparr>data = [], ending = ErrUnexpectedEOF\<rparr> k acc") auto



subsection \<open>\<^verbatim>\<open>getUrl\<close> signals once\<close>

lemma getUrl_body_no_send:
  "getUrl_body qflag url f c fs = Some (fs', tr) \<Longrightarrow> filter (\<lambda>e. e = Send) tr = []"
  by (auto simp: getUrl_body_def Let_def
           split: sum.splits option.splits prod.splits if_splits)


lemma getUrl_Some_sends:
  "getUrl qflag url f c fs = Some (fs', tr) \<Longrightarrow> length (filter (\<lambda>e. e = Send) tr) = 1"
  by (auto simp: getUrl_def dest: getUrl_body_no_send)

lemma getUrl_Some_prints:
  "getUrl qflag url f c fs = Some (fs', tr) \<Longrightarrow> Send \<in> set tr"
  by (auto simp: getUrl_def)



subsection \<open>A failing \<^verbatim>\<open>prepUrl\<close>\<close>

text \<open>
  Claim C8. When \<^verbatim>\<open>os.CreateTemp\<close> fails in \<^verbatim>\<open>prepUrl\<close>, the error is what
  \<^verbatim>\<open>prepUrl\<close> returns, every lookup in the registry gives what it gave before (the
  call appends no temporary path and sets no destination name), the file system is
  unchanged, and the allocation loop prints the error and leaves the dispatch list
  \<^verbatim>\<open>urls\<close> as it was.
\<close>

theorem prepUrl_failure:
  assumes "os_CreateTemp d (fname_of (normUrl url) @ ''*'') sys (fsys s) = Inl err"
  shows "fst (prepUrl url d sys s) = Inl err
     \<and> (\<forall>u. lookup (filemap (snd (prepUrl url d sys s))) u = lookup (filemap s) u)
     \<and> fsys (snd (prepUrl url d sys s)) = fsys s
     \<and> urls (alloc_loop (\<lambda>_. sys) d i [url] s) = urls s
     \<and> out (alloc_loop (\<lambda>_. sys) d i [url] s) = out s @ [Eprintln err]"
proof -
  have p: "prepUrl url d sys s
           = (Inl err, s\<lparr>filemap := (filemap s)(normUrl url \<mapsto> lookup (filemap s) (normUrl url))\<rparr>)"
    using assms by (simp add: prepUrl_def Let_def)
  have "\<forall>u. lookup ((filemap s)(normUrl url \<mapsto> lookup (filemap s) (normUrl url))) u
             = lookup (filemap s) u"
    by (simp add: lookup_def)
  with p show ?thesis by simp
qed

theorem prepUrl_failure_witness:
  "os_CreateTemp ''./.goget1'' (fname_of (normUrl ''example.com/a'') @ ''*'')
      (Inl (ErrOther ''no space left on device'')) (fsys (init_state fs0))
     = Inl (ErrOther ''no space left on device'')
   \<and> fst (prepUrl ''example.com/a'' ''./.goget1'' (Inl (ErrOther ''no space left on device''))
            (init_state fs0)) = Inl (ErrOther ''no space left on device'')
   \<and> urls (alloc_loop (\<lambda>_. Inl (ErrOther ''no space left on device'')) ''./.goget1'' 0
             [''example.com/a''] (init_state fs0)) = []
   \<and> lookup (filemap (snd (prepUrl ''example.com/a'' ''./.goget1''
                 (Inl (ErrOther ''no space left on device'')) (init_state fs0))))
        ''http://example.com/a'' = zero_filename"
proof -
  have h: "os_CreateTemp ''./.goget1'' (fname_of (normUrl ''example.com/a'') @ ''*'')
      (Inl (ErrOther ''no space left on device'')) (fsys (init_state fs0))
     = Inl (ErrOther ''no space left on device'')"
    by code_simp
  have u: "urls (init_state fs0) = []" by (simp add: init_state_def)
  have l: "lookup (filemap (init_state fs0)) ''http://example.com/a'' = zero_filename"
    by (simp add: init_state_def lookup_def)
  from prepUrl_failure[OF h, of 0] h u l show ?thesis by simp
qed

subsection \<open>The bound on the running downloads\<close>

lemma inflight_inv_init: "1 \<le> pflag \<Longrightarrow> inflight_inv pflag (dispatch_init s)"
  by (simp add: inflight_inv_def dispatch_init_def)

lemma inflight_inv_main_step:
  "inflight_inv pflag s \<Longrightarrow> main_step pflag s = Inr s' \<Longrightarrow> inflight_inv pflag s'"
  by (cases "pc s")
     (auto simp: inflight_inv_def main_step_def
           split: list.splits if_splits option.splits)

lemma inflight_inv_fetcher_step:
  assumes "inflight_inv pflag s" and "fetcher_step pflag qflag cs k s = Inr s'"
  shows "inflight_inv pflag s'"
proof -
  from assms(2) have k: "k < length (running s)"
    by (auto simp: fetcher_step_def split: if_splits)
  obtain url f i where r: "running s ! k = (url, f, i)" by (cases "running s ! k")
  from assms(2) k r obtain fs' tr where g: "getUrl qflag url f (cs i) (fsys s) = Some (fs', tr)"
    by (auto simp: fetcher_step_def split: option.splits)
  have one: "length (filter (\<lambda>e. e = Send) tr) = 1" using g by (rule getUrl_Some_sends)
  from assms(2) k r g one have s': "s' = s\<lparr>fsys := fs',
        out := out s @ filter (\<lambda>e. e \<noteq> Send) tr,
        ch := ch s + 1,
        running := take k (running s) @ drop (Suc k) (running s)\<rparr>"
    by (auto simp: fetcher_step_def Let_def split: if_splits)
  have "length (take k (running s) @ drop (Suc k) (running s)) = length (running s) - 1"
    using k by simp
  with assms(1) k show ?thesis
    unfolding s' inflight_inv_def by auto
qed

lemma inflight_inv_exec:
  "inflight_inv pflag s \<Longrightarrow> exec pflag qflag cs sched s = Inr s' \<Longrightarrow> inflight_inv pflag s'"
proof (induction sched arbitrary: s)
  case Nil
  then show ?case by simp
next
  case (Cons ev evs)
  from Cons.prems(2) obtain s1 where st: "step pflag qflag cs ev s = Inr s1"
    and rest: "exec pflag qflag cs evs s1 = Inr s'"
    by (auto split: sum.splits)
  have "inflight_inv pflag s1"
    using st Cons.prems(1)
    by (cases ev) (auto simp: step_def intro: inflight_inv_main_step inflight_inv_fetcher_step)
  then show ?case using rest by (rule Cons.IH)
qed

text \<open>A running getUrl is never held up at its send.\<close>
lemma fetcher_never_blocked:
  assumes "inflight_inv pflag s" and "k < length (running s)"
    and "running s ! k = (url, f, i)" and "getUrl qflag url f (cs i) (fsys s) = Some r"
  shows "\<exists>s'. fetcher_step pflag qflag cs k s = Inr s'"
proof -
  obtain fs' tr where r: "r = (fs', tr)" by (cases r)
  have one: "length (filter (\<lambda>e. e = Send) tr) = 1"
    using assms(4) unfolding r by (rule getUrl_Some_sends)
  have "int (ch s + 1) \<le> pflag" using assms(1,2) by (auto simp: inflight_inv_def)
  then show ?thesis
    using assms(2,3,4) one unfolding r by (simp add: fetcher_step_def Let_def)
qed

text \<open>
  Claim C3. With a limit \<^verbatim>\<open>*pflag\<close> of at least 1, in every state that the dispatch
  loops reach under any schedule (every point of a run is the end of a schedule), at
  most \<^verbatim>\<open>*pflag\<close> goroutines \<^verbatim>\<open>getUrl\<close> are started and have not sent their
  completion value yet; and once \<^verbatim>\<open>main\<close> has left the loops, none is left and
  \<^verbatim>\<open>routines\<close> is 0.
\<close>

theorem dispatcher_bound:
  assumes "1 \<le> pflag" and "exec pflag qflag cs sched (dispatch_init s) = Inr s'"
  shows "int (length (running s')) \<le> pflag
         \<and> (pc s' = Returned \<longrightarrow> running s' = [] \<and> routines s' = 0)"
proof -
  have "inflight_inv pflag s'"
    using inflight_inv_init[OF assms(1)] assms(2) by (rule inflight_inv_exec)
  then have a: "int (length (running s')) + int (ch s') = routines s'"
    and b: "routines s' \<le> pflag" and c: "pc s' = Returned \<longrightarrow> routines s' = 0"
    by (simp_all add: inflight_inv_def)
  from a b have "int (length (running s')) \<le> pflag" by linarith
  moreover from a c have "pc s' = Returned \<longrightarrow> running s' = [] \<and> routines s' = 0"
    by (cases "running s'") auto
  ultimately show ?thesis by (rule conjI)
qed

theorem dispatcher_bound_witness:
  "(1::int) \<le> 1
   \<and> exec 1 False (conns w0) sched2 (dispatch_init alloc2)
     = Inr (projr (exec 1 False (conns w0) sched2 (dispatch_init alloc2)))
   \<and> pc (projr (exec 1 False (conns w0) sched2 (dispatch_init alloc2))) = Returned
   \<and> running (projr (exec 1 False (conns w0) sched2 (dispatch_init alloc2))) = []
   \<and> routines (projr (exec 1 False (conns w0) sched2 (dispatch_init alloc2))) = 0"
proof -
  have r: "\<not> isl (exec 1 False (conns w0) sched2 (dispatch_init alloc2))" by code_simp
  then have e: "exec 1 False (conns w0) sched2 (dispatch_init alloc2)
     = Inr (projr (exec 1 False (conns w0) sched2 (dispatch_init alloc2)))" by simp
  have p: "pc (projr (exec 1 False (conns w0) sched2 (dispatch_init alloc2))) = Returned"
    by code_simp
  from dispatcher_bound[OF _ e] p e show ?thesis by simp
qed

subsection \<open>The registry during allocation\<close>

lemma lookup_upd: "lookup (m(k \<mapsto> v)) u = (if u = k then v else lookup m u)"
  by (simp add: lookup_def)

lemma alloc_reg_inv_init: "alloc_reg_inv (init_state fs)"
  by (simp add: alloc_reg_inv_def init_state_def lookup_def zero_filename_def)

lemma prepUrl_cases:
  obtains (fail) err where
      "prepUrl arg d sys s
       = (Inl err, s\<lparr>filemap := (filemap s)(normUrl arg \<mapsto> lookup (filemap s) (normUrl arg))\<rparr>)"
      "os_CreateTemp d (fname_of (normUrl arg) @ ''*'') sys (fsys s) = Inl err"
  | (ok) tmpfp fs' where
      "prepUrl arg d sys s
       = (Inr (normUrl arg),
          s\<lparr>fsys := fs',
            filemap := (filemap s)(normUrl arg \<mapsto>
              (lookup (filemap s) (normUrl arg))
                \<lparr>name := fname_of (normUrl arg),
                 tmpfiles := tmpfiles (lookup (filemap s) (normUrl arg)) @ [tmpfp]\<rparr>)\<rparr>)"
      "os_CreateTemp d (fname_of (normUrl arg) @ ''*'') sys (fsys s) = Inr (tmpfp, fs')"
proof (cases "os_CreateTemp d (fname_of (normUrl arg) @ ''*'') sys (fsys s)")
  case (Inl err)
  then show ?thesis using fail by (simp add: prepUrl_def Let_def)
next
  case (Inr r)
  then show ?thesis using ok by (cases r) (simp add: prepUrl_def Let_def)
qed

lemma alloc_reg_inv_step:
  assumes "alloc_reg_inv s"
  shows "alloc_reg_inv (alloc_loop sys d i [arg] s)"
proof (rule prepUrl_cases[where arg = arg and d = d and sys = "sys i" and s = s])
  fix err
  assume "prepUrl arg d (sys i) s
       = (Inl err, s\<lparr>filemap := (filemap s)(normUrl arg \<mapsto> lookup (filemap s) (normUrl arg))\<rparr>)"
  then show ?thesis
    using assms by (auto simp: alloc_reg_inv_def lookup_upd)
next
  fix tmpfp fs'
  assume "prepUrl arg d (sys i) s
       = (Inr (normUrl arg),
          s\<lparr>fsys := fs',
            filemap := (filemap s)(normUrl arg \<mapsto>
              (lookup (filemap s) (normUrl arg))
                \<lparr>name := fname_of (normUrl arg),
                 tmpfiles := tmpfiles (lookup (filemap s) (normUrl arg)) @ [tmpfp]\<rparr>)\<rparr>)"
  then show ?thesis
    using assms by (auto simp: alloc_reg_inv_def lookup_upd)
qed

lemma alloc_loop_Cons:
  "alloc_loop sys d i (arg # args) s = alloc_loop sys d (Suc i) args (alloc_loop sys d i [arg] s)"
proof (cases "prepUrl arg d (sys i) s")
  case (Pair r s')
  then show ?thesis by (cases r) simp_all
qed

lemma alloc_reg_inv_loop:
  "alloc_reg_inv s \<Longrightarrow> alloc_reg_inv (alloc_loop sys d i args s)"
proof (induction args arbitrary: s i)
  case Nil
  then show ?case by simp
next
  case (Cons arg args)
  have "alloc_reg_inv (alloc_loop sys d i [arg] s)"
    using Cons.prems by (rule alloc_reg_inv_step)
  then have "alloc_reg_inv (alloc_loop sys d (Suc i) args (alloc_loop sys d i [arg] s))"
    by (rule Cons.IH)
  then show ?case by (subst alloc_loop_Cons)
qed

subsection \<open>The registry during dispatch\<close>

lemma alloc_reg_inv_dispatch_init: "alloc_reg_inv s \<Longrightarrow> alloc_reg_inv (dispatch_init s)"
  by (simp add: alloc_reg_inv_def dispatch_init_def)

lemma reg_inv_init:
  assumes "alloc_reg_inv s1"
  shows "reg_inv (dispatch_init s1) (dispatch_init s1)"
proof -
  have "filemap s1 u = map_option (\<lambda>e. e\<lparr>n := 0\<rparr>) (filemap s1 u)" for u
  proof (cases "filemap s1 u")
    case None
    then show ?thesis by simp
  next
    case (Some e)
    with assms have "n e = 0"
      by (auto simp: alloc_reg_inv_def lookup_def split: option.splits dest!: spec[where x = u])
    with Some show ?thesis by simp
  qed
  then show ?thesis
    by (simp add: reg_inv_def dispatch_init_def)
qed

lemma count_list_take_Suc:
  "m < length us \<Longrightarrow>
   count_list (take (Suc m) us) u = count_list (take m us) u + (if us ! m = u then 1 else 0)"
  by (simp add: take_Suc_conv_app_nth)

lemma count_list_take_less:
  assumes "m < length us"
  shows "count_list (take m us) (us ! m) < count_list us (us ! m)"
proof -
  have "us = take m us @ us ! m # drop (Suc m) us"
    using assms by (simp add: id_take_nth_drop)
  then have "count_list us (us ! m)
    = count_list (take m us) (us ! m) + count_list (us ! m # drop (Suc m) us) (us ! m)"
    by (metis count_list_append)
  then show ?thesis by simp
qed

text \<open>At Spawn the index of line 184 is in range.\<close>

lemma reg_inv_main_step:
  assumes a: "alloc_reg_inv s1" and r: "reg_inv s1 s"
  shows "\<exists>s'. (main_step pflag s = Inr s' \<and> reg_inv s1 s') \<or> main_step pflag s = Inl Stuck"
proof (cases "pc s")
  case Check
  with r show ?thesis
    by (auto simp: main_step_def reg_inv_def split: list.splits)
next
  case Drain
  with r show ?thesis
    by (auto simp: main_step_def reg_inv_def)
next
  case Returned
  then show ?thesis by (simp add: main_step_def)
next
  case Spawn
  show ?thesis
  proof (cases "todo s")
    case Nil
    with Spawn show ?thesis by (simp add: main_step_def)
  next
    case (Cons url rest)
    let ?m = "spawned s" and ?U = "urls s1"
    from r have td: "todo s = drop ?m ?U" and fm: "\<And>u. filemap s u
             = map_option (\<lambda>e. e\<lparr>n := int (count_list (take ?m ?U) u)\<rparr>) (filemap s1 u)"
      and us: "urls s = ?U"
      by (simp_all add: reg_inv_def)
    from td Cons have m: "?m < length ?U" by (cases "?m < length ?U") auto
    from td Cons m have url: "url = ?U ! ?m" and rest: "rest = drop (Suc ?m) ?U"
      by (simp_all add: Cons_nth_drop_Suc[symmetric])
    from m have "url \<in> set ?U" unfolding url by simp
    with a obtain e1 where e1: "filemap s1 url = Some e1"
      by (auto simp: alloc_reg_inv_def)
    from a e1 have len: "length (tmpfiles e1) = count_list ?U url"
      by (auto simp: alloc_reg_inv_def lookup_def split: option.splits dest!: spec[where x = url])
    let ?e = "e1\<lparr>n := int (count_list (take ?m ?U) url)\<rparr>"
    have e: "filemap s url = Some ?e" by (simp add: fm e1)
    have lt: "count_list (take ?m ?U) url < length (tmpfiles e1)"
      unfolding len url using m by (rule count_list_take_less)
    define s' where "s' = s\<lparr>running := running s @ [(url, tmpfiles ?e ! nat (n ?e), spawned s)],
                                spawned := Suc (spawned s),
                                filemap := (filemap s)(url \<mapsto> ?e\<lparr>n := n ?e + 1\<rparr>),
                                routines := routines s + 1,
                                todo := rest, pc := Check\<rparr>"
    have st: "main_step pflag s = Inr s'"
      using Spawn Cons e lt by (simp add: main_step_def s'_def)
    have "reg_inv s1 s'"
      unfolding reg_inv_def s'_def
      using m us rest fm e1 by (auto simp: count_list_take_Suc url)
    with st show ?thesis by blast
  qed
qed

lemma reg_inv_fetcher_step:
  "reg_inv s1 s \<Longrightarrow> fetcher_step pflag qflag cs k s = Inr s' \<Longrightarrow> reg_inv s1 s'"
  by (auto simp: fetcher_step_def reg_inv_def Let_def split: if_splits prod.splits option.splits)

lemma reg_inv_exec:
  assumes "alloc_reg_inv s1"
  shows "reg_inv s1 s \<Longrightarrow>
    (\<exists>s'. exec pflag qflag cs sched s = Inr s' \<and> reg_inv s1 s')
    \<or> exec pflag qflag cs sched s = Inl Stuck"
proof (induction sched arbitrary: s)
  case Nil
  then show ?case by simp
next
  case (Cons ev evs)
  show ?case
  proof (cases "step pflag qflag cs ev s")
    case (Inl flt)
    have "flt = Stuck"
    proof (cases ev)
      case MainStep
      with Inl reg_inv_main_step[OF assms Cons.prems, of pflag] show ?thesis
        by (auto simp: step_def)
    next
      case (FetcherDone k)
      with Inl show ?thesis
        by (auto simp: step_def fetcher_step_def Let_def
                 split: if_splits prod.splits option.splits)
    qed
    with Inl show ?thesis by simp
  next
    case (Inr s1')
    have "reg_inv s1 s1'"
    proof (cases ev)
      case MainStep
      with Inr reg_inv_main_step[OF assms Cons.prems, of pflag] show ?thesis
        by (auto simp: step_def)
    next
      case (FetcherDone k)
      with Inr Cons.prems show ?thesis
        by (auto simp: step_def intro: reg_inv_fetcher_step)
    qed
    from Cons.IH[OF this] Inr show ?thesis by simp
  qed
qed

subsection \<open>The renames of the deferred closure\<close>

lemma renames_append: "renames (xs @ ys) = renames xs @ renames ys"
  by (induction xs rule: renames.induct) simp_all

lemma slots_Nil: "slots fm [] = []"
  by (simp add: slots_def)

lemma slots_Cons:
  assumes "tmpfiles (lookup fm u) = t # rest"
  shows "slots fm (u # us) = t # slots (fm(u \<mapsto> (lookup fm u)\<lparr>tmpfiles := rest\<rparr>)) us"
proof -
  let ?fm' = "fm(u \<mapsto> (lookup fm u)\<lparr>tmpfiles := rest\<rparr>)"
  have 0: "slot_of fm (u # us) 0 = t"
    using assms by (simp add: slot_of_def)
  have S: "slot_of fm (u # us) (Suc k) = slot_of ?fm' us k" for k
  proof (cases "us ! k = u")
    case True
    then show ?thesis using assms by (simp add: slot_of_def lookup_upd)
  next
    case False
    then show ?thesis by (auto simp: slot_of_def lookup_upd)
  qed
  have "[0..<length (u # us)] = 0 # map Suc [0..<length us]"
    by (simp add: upt_conv_Cons map_Suc_upt del: upt_Suc)
  then have "slots fm (u # us) = map (slot_of fm (u # us)) (0 # map Suc [0..<length us])"
    by (simp only: slots_def)
  also have "\<dots> = t # map (slot_of ?fm' us) [0..<length us]"
    by (simp add: 0 S comp_def)
  finally show ?thesis by (simp add: slots_def)
qed

lemma rename_Cons:
  assumes "tmpfiles (lookup (filemap s) url) = t # rest"
  shows "rename err url s =
     Inr (s\<lparr>fsys := try_rename (t, name (lookup (filemap s) url)) (fsys s),
            out := out s @ [Renamed t (name (lookup (filemap s) url))
                     (case os_Rename t (name (lookup (filemap s) url)) (fsys s) of
                        Inl e \<Rightarrow> Some e | Inr _ \<Rightarrow> None)]
                   @ (case err of None \<Rightarrow> []
                      | Some e \<Rightarrow> if e \<noteq> ErrNotExist then [Eprintln e] else []),
            filemap := (filemap s)(url \<mapsto> (lookup (filemap s) url)\<lparr>tmpfiles := rest\<rparr>)\<rparr>)"
  using assms by (simp add: rename_def Let_def try_rename_def)

lemma renames_report:
  "renames (case err of None \<Rightarrow> [] | Some e \<Rightarrow> if e \<noteq> ErrNotExist then [Eprintln e] else []) = []"
  by (simp split: option.split)

lemma publish_loop_ok:
  assumes "\<forall>u. count_list us u \<le> length (tmpfiles (lookup (filemap s) u))"
  shows "\<exists>s'. publish_loop err us s = Inr s'
     \<and> (\<forall>u. lookup (filemap s') u
            = (lookup (filemap s) u)
                \<lparr>tmpfiles := drop (count_list us u) (tmpfiles (lookup (filemap s) u))\<rparr>)
     \<and> renames (out s') = renames (out s)
          @ zip (slots (filemap s) us) (map (\<lambda>u. name (lookup (filemap s) u)) us)
     \<and> fsys s' = fold try_rename
          (zip (slots (filemap s) us) (map (\<lambda>u. name (lookup (filemap s) u)) us)) (fsys s)
     \<and> urls s' = urls s"
  using assms
proof (induction us arbitrary: s)
  case Nil
  then show ?case by (simp add: slots_Nil)
next
  case (Cons u us)
  from Cons.prems have "1 \<le> length (tmpfiles (lookup (filemap s) u))"
    using spec[OF Cons.prems, of u] by simp
  then obtain t rest where tr: "tmpfiles (lookup (filemap s) u) = t # rest"
    by (cases "tmpfiles (lookup (filemap s) u)") auto
  let ?e = "lookup (filemap s) u"
  define s1 where "s1 = s\<lparr>fsys := try_rename (t, name ?e) (fsys s),
            out := out s @ [Renamed t (name ?e)
                     (case os_Rename t (name ?e) (fsys s) of
                        Inl e \<Rightarrow> Some e | Inr _ \<Rightarrow> None)]
                   @ (case err of None \<Rightarrow> []
                      | Some e \<Rightarrow> if e \<noteq> ErrNotExist then [Eprintln e] else []),
            filemap := (filemap s)(u \<mapsto> ?e\<lparr>tmpfiles := rest\<rparr>)\<rparr>"
  have rn: "rename err u s = Inr s1"
    unfolding s1_def by (rule rename_Cons[OF tr])
  have fm1: "filemap s1 = (filemap s)(u \<mapsto> ?e\<lparr>tmpfiles := rest\<rparr>)"
    by (simp add: s1_def)
  have pre: "\<forall>v. count_list us v \<le> length (tmpfiles (lookup (filemap s1) v))"
  proof
    fix v
    from spec[OF Cons.prems, of v] tr
    show "count_list us v \<le> length (tmpfiles (lookup (filemap s1) v))"
      by (auto simp: fm1 lookup_upd split: if_splits)
  qed
  from Cons.IH[OF pre] obtain s' where
    pl: "publish_loop err us s1 = Inr s'"
    and lk: "\<forall>v. lookup (filemap s') v
            = (lookup (filemap s1) v)
                \<lparr>tmpfiles := drop (count_list us v) (tmpfiles (lookup (filemap s1) v))\<rparr>"
    and rs: "renames (out s') = renames (out s1)
          @ zip (slots (filemap s1) us) (map (\<lambda>u. name (lookup (filemap s1) u)) us)"
    and fs: "fsys s' = fold try_rename
          (zip (slots (filemap s1) us) (map (\<lambda>u. name (lookup (filemap s1) u)) us)) (fsys s1)"
    and us: "urls s' = urls s1"
    by blast
  have names: "map (\<lambda>v. name (lookup (filemap s1) v)) us = map (\<lambda>v. name (lookup (filemap s) v)) us"
    by (simp add: fm1 lookup_upd)
  have sl: "slots (filemap s) (u # us) = t # slots (filemap s1) us"
    unfolding fm1 by (rule slots_Cons[OF tr])
  have 1: "publish_loop err (u # us) s = Inr s'" using rn pl by simp
  have 2: "\<forall>v. lookup (filemap s') v
            = (lookup (filemap s) v)
                \<lparr>tmpfiles := drop (count_list (u # us) v) (tmpfiles (lookup (filemap s) v))\<rparr>"
    using lk tr by (auto simp: fm1 lookup_upd)
  have 3: "renames (out s') = renames (out s)
          @ zip (slots (filemap s) (u # us)) (map (\<lambda>u. name (lookup (filemap s) u)) (u # us))"
    unfolding rs sl names by (simp add: s1_def renames_append renames_report)
  have 4: "fsys s' = fold try_rename
          (zip (slots (filemap s) (u # us)) (map (\<lambda>u. name (lookup (filemap s) u)) (u # us))) (fsys s)"
    unfolding fs sl names by (simp add: s1_def)
  have 5: "urls s' = urls s" using us by (simp add: s1_def)
  from 1 2 3 4 5 show ?case by blast
qed

subsection \<open>A complete run\<close>






lemma reg_inv_lookup:
  assumes "reg_inv s1 s"
  shows "tmpfiles (lookup (filemap s) u) = tmpfiles (lookup (filemap s1) u)"
    and "name (lookup (filemap s) u) = name (lookup (filemap s1) u)"
  using assms by (auto simp: reg_inv_def lookup_def split: option.splits)

lemma slots_cong:
  "(\<And>u. tmpfiles (lookup fm u) = tmpfiles (lookup fm' u)) \<Longrightarrow> slots fm us = slots fm' us"
  by (simp add: slots_def slot_of_def)

lemma main_run:
  assumes "1 \<le> pflag" and "os_MkdirTemp (mkdir_sys w) fs = Inr (tmpdir, fs1)"
  shows "main pflag qflag args w sched fs =
          (case exec pflag qflag (conns w) sched (dispatch_init (allocated w args fs)) of
             Inl flt \<Rightarrow> Inl flt
           | Inr s2 \<Rightarrow> if pc s2 \<noteq> Returned then Inl Stuck else teardown None tmpdir s2)"
    and "allocated w args fs = alloc_loop (temp_sys w) tmpdir 0 args (init_state fs1)"
  using assms by (simp_all add: main_def allocated_def Let_def)

lemma main_early:
  assumes "pflag < 1 \<or> (\<exists>err. os_MkdirTemp (mkdir_sys w) fs = Inl err)"
  shows "\<exists>rc s. main pflag qflag args w sched fs = Inr (rc, s) \<and> urls s = []
           \<and> renames (out s) = [] \<and> filemap s = Map.empty \<and> fsys s = fs"
  using assms by (auto simp: main_def init_state_def)

lemma alloc_reg_inv_allocated: "alloc_reg_inv (allocated w args fs)"
  by (auto simp: allocated_def alloc_reg_inv_init alloc_reg_inv_loop split: sum.splits)



subsection \<open>The counts and the queues\<close>

lemma count_list_take_le: "count_list (take m us) u \<le> count_list us u"
proof -
  have "count_list us u = count_list (take m us) u + count_list (drop m us) u"
    by (metis append_take_drop_id count_list_append)
  then show ?thesis by simp
qed

text \<open>
  Claim C7, as far as it holds. In every state that allocation and the dispatch loops
  reach (any arguments, any schedule; the state when allocation is done is the one
  under the empty schedule), every entry of the registry has at least as many queued
  temporary paths as its count \<^verbatim>\<open>n\<close>: \<^verbatim>\<open>prepUrl\<close> appends the path before the
  dispatch loop counts the occurrence, and the loop counts each occurrence once.
\<close>

theorem registry_invariant_until_publish:
  assumes "exec pflag qflag cs sched (dispatch_init (alloc_loop sys d 0 args (init_state fs)))
           = Inr s"
  shows "\<forall>u e. filemap s u = Some e \<longrightarrow> n e \<le> int (length (tmpfiles e))"
proof (intro allI impI)
  fix u e
  assume e: "filemap s u = Some e"
  let ?s1 = "alloc_loop sys d 0 args (init_state fs)"
  let ?d1 = "dispatch_init ?s1"
  have a1: "alloc_reg_inv ?s1" by (rule alloc_reg_inv_loop[OF alloc_reg_inv_init])
  then have a: "alloc_reg_inv ?d1" by (rule alloc_reg_inv_dispatch_init)
  have "reg_inv ?d1 ?d1" by (rule reg_inv_init[OF a1])
  from reg_inv_exec[OF a this, of pflag qflag cs sched] assms
  have r: "reg_inv ?d1 s" by auto
  then have fm: "filemap s u
      = map_option (\<lambda>e. e\<lparr>n := int (count_list (take (spawned s) (urls ?d1)) u)\<rparr>) (filemap ?d1 u)"
    by (simp add: reg_inv_def)
  with e obtain e1 where e1: "filemap ?d1 u = Some e1"
    and ee: "e = e1\<lparr>n := int (count_list (take (spawned s) (urls ?d1)) u)\<rparr>"
    by (cases "filemap ?d1 u") auto
  from a e1 have "length (tmpfiles e1) = count_list (urls ?d1) u"
    by (auto simp: alloc_reg_inv_def lookup_def split: option.splits dest!: spec[where x = u])
  then show "n e \<le> int (length (tmpfiles e))"
    unfolding ee by (simp add: count_list_take_le)
qed

theorem registry_invariant_until_publish_witness:
  "exec 1 False (conns w0) [MainStep, MainStep]
     (dispatch_init (alloc_loop (temp_sys w0) ''d'' 0 [''a.com/x'', ''b.com/y'']
              (init_state \<lparr>files = [], dirs = [''.'', ''d'']\<rparr>)))
   = Inr (projr (exec 1 False (conns w0) [MainStep, MainStep]
     (dispatch_init (alloc_loop (temp_sys w0) ''d'' 0 [''a.com/x'', ''b.com/y'']
              (init_state \<lparr>files = [], dirs = [''.'', ''d'']\<rparr>)))))
   \<and> filemap (projr (exec 1 False (conns w0) [MainStep, MainStep]
     (dispatch_init (alloc_loop (temp_sys w0) ''d'' 0 [''a.com/x'', ''b.com/y'']
              (init_state \<lparr>files = [], dirs = [''.'', ''d'']\<rparr>))))) ''http://a.com/x''
     = Some \<lparr>n = 1, name = ''x'', tmpfiles = [''d/xr'']\<rparr>
   \<and> n \<lparr>n = 1, name = ''x'', tmpfiles = [''d/xr'']\<rparr>
       \<le> int (length (tmpfiles \<lparr>n = 1, name = ''x'', tmpfiles = [''d/xr'']\<rparr>))"
proof -
  let ?r = "exec 1 False (conns w0) [MainStep, MainStep]
     (dispatch_init (alloc_loop (temp_sys w0) ''d'' 0 [''a.com/x'', ''b.com/y'']
              (init_state \<lparr>files = [], dirs = [''.'', ''d'']\<rparr>)))"
  have "\<not> isl ?r" by code_simp
  then have e: "?r = Inr (projr ?r)" by simp
  have f: "filemap (projr ?r) ''http://a.com/x''
     = Some \<lparr>n = 1, name = ''x'', tmpfiles = [''d/xr'']\<rparr>"
    by code_simp
  from registry_invariant_until_publish[OF e] f e show ?thesis by blast
qed

text \<open>
  The invariant does not hold in every state of a run: \<^verbatim>\<open>rename\<close> pops the front of
  the queue (line 142) and leaves \<^verbatim>\<open>n\<close> alone. After a run with one URL its entry
  has \<^verbatim>\<open>n = 1\<close> and an empty queue.
\<close>

theorem registry_invariant_counterexample:
  "\<not> isl (main 1 False [''example.com/a.txt''] w0 sched1 fs0)
   \<and> filemap (snd (projr (main 1 False [''example.com/a.txt''] w0 sched1 fs0)))
        ''http://example.com/a.txt''
     = Some \<lparr>n = 1, name = ''a.txt'', tmpfiles = []\<rparr>
   \<and> \<not> n \<lparr>n = 1, name = ''a.txt'', tmpfiles = []\<rparr>
         \<le> int (length (tmpfiles \<lparr>n = 1, name = ''a.txt'', tmpfiles = []\<rparr>))"
  by code_simp

text \<open>
  Claim C10. No run of \<^verbatim>\<open>main\<close> ends in an index out of range, whatever the
  arguments, the limit, the schedule and the outside do: neither \<^verbatim>\<open>tmpfiles[n]\<close> of
  line 184 nor \<^verbatim>\<open>tmpfiles[0]\<close> and \<^verbatim>\<open>tmpfiles[1:]\<close> of lines 142-145. When the
  allocation loop is done, every URL has as many occurrences on the dispatch list as
  it has queued temporary paths.
\<close>

theorem no_index_panic:
  "main pflag qflag args w sched fs \<noteq> Inl IndexOutOfRange
   \<and> (\<forall>u. count_list (urls (allocated w args fs)) u
           = length (tmpfiles (lookup (filemap (allocated w args fs)) u)))"
proof
  show "\<forall>u. count_list (urls (allocated w args fs)) u
           = length (tmpfiles (lookup (filemap (allocated w args fs)) u))"
    using alloc_reg_inv_allocated[of w args fs] by (simp add: alloc_reg_inv_def)
next
  show "main pflag qflag args w sched fs \<noteq> Inl IndexOutOfRange"
  proof (cases "pflag < 1 \<or> (\<exists>err. os_MkdirTemp (mkdir_sys w) fs = Inl err)")
    case True
    from main_early[OF this, of qflag args sched] show ?thesis by auto
  next
    case False
    then have p: "1 \<le> pflag" by simp
    from False obtain tmpdir fs1 where mk: "os_MkdirTemp (mkdir_sys w) fs = Inr (tmpdir, fs1)"
      by (cases "os_MkdirTemp (mkdir_sys w) fs") auto
    let ?d1 = "dispatch_init (allocated w args fs)"
    have a: "alloc_reg_inv ?d1"
      by (rule alloc_reg_inv_dispatch_init[OF alloc_reg_inv_allocated])
    have r0: "reg_inv ?d1 ?d1"
      using reg_inv_init[OF alloc_reg_inv_allocated] .
    from reg_inv_exec[OF a r0, of pflag qflag "conns w" sched]
    consider (stuck) "exec pflag qflag (conns w) sched ?d1 = Inl Stuck"
      | (ok) s2 where "exec pflag qflag (conns w) sched ?d1 = Inr s2" "reg_inv ?d1 s2"
      by blast
    then show ?thesis
    proof cases
      case stuck
      then show ?thesis by (simp add: main_run(1)[OF p mk])
    next
      case ok
      have "\<forall>u. count_list (urls s2) u \<le> length (tmpfiles (lookup (filemap s2) u))"
      proof
        fix u
        have "urls s2 = urls ?d1" using ok(2) by (simp add: reg_inv_def)
        moreover have "length (tmpfiles (lookup (filemap ?d1) u)) = count_list (urls ?d1) u"
          using a by (simp add: alloc_reg_inv_def)
        ultimately show "count_list (urls s2) u \<le> length (tmpfiles (lookup (filemap s2) u))"
          by (simp add: reg_inv_lookup(1)[OF ok(2)])
      qed
      from publish_loop_ok[OF this, of None] obtain s3 where
        "publish_loop None (urls s2) s2 = Inr s3" by blast
      then have "\<exists>r. teardown None tmpdir s2 = Inr r"
        by (simp add: teardown_def split: sum.splits)
      with ok(1) show ?thesis
        by (auto simp: main_run(1)[OF p mk])
    qed
  qed
qed

theorem no_index_panic_witness:
  "main 1 False twice w0 sched2 fs0 \<noteq> Inl IndexOutOfRange
   \<and> count_list (urls (allocated w0 twice fs0)) ''http://a.com/x'' = 2
   \<and> length (tmpfiles (lookup (filemap (allocated w0 twice fs0)) ''http://a.com/x'')) = 2"
proof -
  have "count_list (urls (allocated w0 twice fs0)) ''http://a.com/x'' = 2"
    by code_simp
  with no_index_panic[of 1 False twice w0 sched2 fs0]
  show ?thesis by simp
qed

subsection \<open>What the deferred closure renames\<close>





subsection \<open>A rename that fails\<close>

text \<open>With \<^verbatim>\<open>err\<close> of \<^verbatim>\<open>main\<close> being \<^verbatim>\<open>nil\<close>, as it is when the closure runs,
  \<^verbatim>\<open>rename\<close> prints nothing, whatever \<^verbatim>\<open>os.Rename\<close> returns.\<close>

lemma rename_None_silent:
  assumes "rename None url s = Inr s'"
  shows "\<exists>old new r. out s' = out s @ [Renamed old new r]"
  using assms by (auto simp: rename_def Let_def split: list.splits)

text \<open>
  Claim C2 at a failing input: the destination name \<^verbatim>\<open>x\<close> is a directory. The call
  of \<^verbatim>\<open>os.Rename\<close> fails with an error that is not \<^verbatim>\<open>fs.ErrNotExist\<close>, and nothing
  is printed for it; the only error on standard error is the one of the removal of
  the working directory, which still holds the temporary file, and the exit status is 1.
\<close>

theorem rename_failure_not_reported:
  "\<not> isl (main 1 False [''a.com/x''] w0 sched1 (fs0\<lparr>dirs := [''.'', ''x'']\<rparr>))
   \<and> out (snd (projr (main 1 False [''a.com/x''] w0 sched1 (fs0\<lparr>dirs := [''.'', ''x'']\<rparr>))))
     = [Println ''GET http://a.com/x'', Println ''created ./.goget1/xr'',
        Renamed ''./.goget1/xr'' ''x'' (Some ErrIsDir), Eprintln ErrNotEmpty]
   \<and> fst (projr (main 1 False [''a.com/x''] w0 sched1 (fs0\<lparr>dirs := [''.'', ''x'']\<rparr>))) = 1"
  by code_simp

subsection \<open>The file system: single operations\<close>

lemma map_of_filter_neq:
  "map_of (filter (\<lambda>(q, _). q \<noteq> p) xs) q' = (if q' = p then None else map_of xs q')"
  by (induction xs) auto

lemma map_of_put_file:
  "map_of (files (put_file p b fs)) q = (if q = p then Some b else map_of (files fs) q)"
  by (simp add: put_file_def map_of_filter_neq)

lemma map_of_unlink:
  "map_of (files (unlink p fs)) q = (if q = p then None else map_of (files fs) q)"
  by (simp add: unlink_def map_of_filter_neq)

lemma dirs_put_file: "dirs (put_file p b fs) = dirs fs"
  by (simp add: put_file_def)

lemma dirs_unlink: "dirs (unlink p fs) = dirs fs"
  by (simp add: unlink_def)

lemma is_file_iff: "is_file fs p \<longleftrightarrow> map_of (files fs) p \<noteq> None"
  by (simp add: is_file_def map_of_eq_None_iff)

lemma rm_file: "is_file fs f \<Longrightarrow> rm f fs = unlink f fs"
  by (simp add: rm_def os_Remove_def)

lemma try_rename_dirs: "dirs (try_rename (old, new) fs) = dirs fs"
  by (simp add: try_rename_def os_Rename_def dirs_put_file dirs_unlink split: option.splits)

lemma try_rename_moves:
  "map_of (files fs) old = Some b \<Longrightarrow> new \<notin> set (dirs fs) \<Longrightarrow>
   map_of (files (try_rename (old, new) fs)) q
   = (if q = new then Some b else if q = old then None else map_of (files fs) q)"
  by (simp add: try_rename_def os_Rename_def map_of_put_file map_of_unlink)

lemma try_rename_frame:
  "q \<noteq> old \<Longrightarrow> q \<noteq> new \<Longrightarrow>
   map_of (files (try_rename (old, new) fs)) q = map_of (files fs) q"
  by (simp add: try_rename_def os_Rename_def map_of_put_file map_of_unlink split: option.splits)

lemma try_rename_source_gone:
  "new \<notin> set (dirs fs) \<Longrightarrow> old \<noteq> new \<Longrightarrow>
   map_of (files (try_rename (old, new) fs)) old = None"
  by (simp add: try_rename_def os_Rename_def map_of_put_file map_of_unlink split: option.splits)

text \<open>What a getUrl does to the file system when its temporary file exists.\<close>

lemma getUrl_frame:
  assumes "is_file fs f" and "getUrl qflag url f c fs = Some (fs', tr)"
  shows "dirs fs' = dirs fs \<and> (\<forall>q. q \<noteq> f \<longrightarrow> map_of (files fs') q = map_of (files fs) q)"
proof -
  have c: "is_file (put_file f [] fs) f" by (simp add: is_file_iff map_of_put_file)
  from assms(2) show ?thesis
    by (auto simp: getUrl_def getUrl_body_def Let_def os_Create_def rm_file[OF assms(1)]
                   rm_file[OF c] map_of_put_file map_of_unlink dirs_put_file dirs_unlink
             split: sum.splits option.splits prod.splits if_splits)
qed

lemma getUrl_succeeds:
  assumes "succeeds c b" and "getUrl qflag url f c fs = Some (fs', tr)"
  shows "map_of (files fs') f = Some b"
proof -
  from assms(1) have cr: "create_refusal c = None"
    and g: "get_res c = Inr \<lparr>data = b, ending = EOF\<rparr>"
    and w: "\<forall>k. write_err c k = None" and fl: "flush_res c = None"
    by (simp_all add: succeeds_def)
  have "copy_loop (write_err c) \<lparr>data = b, ending = EOF\<rparr> 0 [] = Some (None, [] @ b)"
    using copy_loop_clean[of "\<lparr>data = b, ending = EOF\<rparr>" "write_err c" 0 "[]"] w by simp
  with assms(2) cr g fl show ?thesis
    by (auto simp: getUrl_def getUrl_body_def Let_def os_Create_def map_of_put_file)
qed

subsection \<open>The file system during allocation\<close>

lemma prefixAndSuffix_star: "prefixAndSuffix (fname @ ''*'') = (fname, [])"
  by (simp add: prefixAndSuffix_def)

lemma fname_of_no_slash: "CHR ''/'' \<notin> set (fname_of url)"
proof -
  have "CHR ''/'' \<notin> set (final_segment x)" for x
    unfolding final_segment_def by (auto dest: set_takeWhileD)
  then show ?thesis
    unfolding fname_of_after by (auto simp: Let_def)
qed

lemma os_CreateTemp_Inr:
  assumes "os_CreateTemp d (fname_of url @ ''*'') sys fs = Inr (p, fs')"
  shows "\<not> is_file fs p \<and> fs' = put_file p [] fs \<and> in_dir d p"
proof -
  from assms obtain r where p: "p = d @ ''/'' @ fname_of url @ r"
    and nf: "\<not> is_file fs p" and fs': "fs' = put_file p [] fs"
    by (auto simp: os_CreateTemp_def prefixAndSuffix_star Let_def fname_of_no_slash
             split: sum.splits if_splits)
  have "in_dir d p" unfolding p in_dir_def HasPrefix_def by simp
  with nf fs' show ?thesis by simp
qed

lemma slots_snoc:
  assumes "\<forall>v. length (tmpfiles (lookup fm v)) = count_list us v"
  shows "slots (fm(u \<mapsto> (lookup fm u)\<lparr>name := nm, tmpfiles := tmpfiles (lookup fm u) @ [t]\<rparr>))
           (us @ [u])
         = slots fm us @ [t]"
proof -
  let ?fm' = "fm(u \<mapsto> (lookup fm u)\<lparr>name := nm, tmpfiles := tmpfiles (lookup fm u) @ [t]\<rparr>)"
  have old: "slot_of ?fm' (us @ [u]) i = slot_of fm us i" if i: "i < length us" for i
  proof (cases "us ! i = u")
    case True
    have "count_list (take i us) (us ! i) < count_list us (us ! i)"
      using i by (rule count_list_take_less)
    then have "count_list (take i us) u < length (tmpfiles (lookup fm u))"
      using assms True by simp
    then show ?thesis
      using i True by (simp add: slot_of_def lookup_upd nth_append)
  next
    case False
    then show ?thesis
      using i by (simp add: slot_of_def lookup_upd nth_append)
  qed
  have new: "slot_of ?fm' (us @ [u]) (length us) = t"
    using assms by (simp add: slot_of_def lookup_upd nth_append)
  have B: "slots ?fm' (us @ [u])
        = map (slot_of ?fm' (us @ [u])) [0..<length us] @ [slot_of ?fm' (us @ [u]) (length us)]"
    by (simp add: slots_def)
  have A: "map (slot_of ?fm' (us @ [u])) [0..<length us] = map (slot_of fm us) [0..<length us]"
  proof (rule map_cong[OF refl])
    fix x assume "x \<in> set [0..<length us]"
    then have "x < length us" by simp
    then show "slot_of ?fm' (us @ [u]) x = slot_of fm us x" by (rule old)
  qed
  show ?thesis unfolding B A new by (simp only: slots_def)
qed

lemma alloc_fs_inv_init: "alloc_fs_inv d fs (init_state fs)"
  by (simp add: alloc_fs_inv_def init_state_def slots_Nil)

lemma alloc_fs_inv_step:
  assumes a: "alloc_reg_inv s" and f: "alloc_fs_inv d fsb s"
  shows "alloc_fs_inv d fsb (alloc_loop sys d i [arg] s)"
proof (rule prepUrl_cases[where arg = arg and d = d and sys = "sys i" and s = s])
  fix err
  assume pu: "prepUrl arg d (sys i) s
       = (Inl err, s\<lparr>filemap := (filemap s)(normUrl arg \<mapsto> lookup (filemap s) (normUrl arg))\<rparr>)"
  let ?fm' = "(filemap s)(normUrl arg \<mapsto> lookup (filemap s) (normUrl arg))"
  have lk: "lookup ?fm' u = lookup (filemap s) u" for u
    by (simp add: lookup_upd)
  have "slots ?fm' (urls s) = slots (filemap s) (urls s)"
    by (rule slots_cong) (simp add: lk)
  with f pu show ?thesis
    by (simp add: alloc_fs_inv_def lk)
next
  fix tmpfp fs'
  let ?u = "normUrl arg"
  let ?fm' = "(filemap s)(?u \<mapsto> (lookup (filemap s) ?u)
                \<lparr>name := fname_of ?u, tmpfiles := tmpfiles (lookup (filemap s) ?u) @ [tmpfp]\<rparr>)"
  assume pu: "prepUrl arg d (sys i) s = (Inr ?u, s\<lparr>fsys := fs', filemap := ?fm'\<rparr>)"
    and ct: "os_CreateTemp d (fname_of ?u @ ''*'') (sys i) (fsys s) = Inr (tmpfp, fs')"
  from os_CreateTemp_Inr[OF ct] have nf: "\<not> is_file (fsys s) tmpfp"
    and fs': "fs' = put_file tmpfp [] (fsys s)" and ind: "in_dir d tmpfp"
    by simp_all
  let ?SL = "slots (filemap s) (urls s)"
  from a have cnt: "\<forall>v. length (tmpfiles (lookup (filemap s) v)) = count_list (urls s) v"
    by (simp add: alloc_reg_inv_def)
  have sl: "slots ?fm' (urls s @ [?u]) = ?SL @ [tmpfp]"
    by (rule slots_snoc[OF cnt])
  from f have d: "distinct ?SL"
    and emp: "\<And>t. t \<in> set ?SL \<Longrightarrow> map_of (files (fsys s)) t = Some [] \<and> in_dir d t"
    and fr: "\<And>q. q \<notin> set ?SL \<Longrightarrow> map_of (files (fsys s)) q = map_of (files fsb) q"
    and dr: "dirs (fsys s) = dirs fsb"
    and nm: "\<And>u. u \<in> set (urls s) \<Longrightarrow> name (lookup (filemap s) u) = fname_of u"
    by (simp_all add: alloc_fs_inv_def)
  have notin: "tmpfp \<notin> set ?SL"
  proof
    assume "tmpfp \<in> set ?SL"
    from emp[OF this] nf show False by (simp add: is_file_iff)
  qed
  have al: "alloc_loop sys d i [arg] s = s\<lparr>fsys := fs', filemap := ?fm', urls := urls s @ [?u]\<rparr>"
    using pu by simp
  have sel: "filemap (alloc_loop sys d i [arg] s) = ?fm'"
    "urls (alloc_loop sys d i [arg] s) = urls s @ [?u]"
    "fsys (alloc_loop sys d i [arg] s) = fs'"
    unfolding al by simp_all
  have 1: "distinct (?SL @ [tmpfp])" using d notin by simp
  have 2: "\<forall>t. t \<in> set (?SL @ [tmpfp]) \<longrightarrow> map_of (files fs') t = Some [] \<and> in_dir d t"
    using emp notin ind by (auto simp: fs' map_of_put_file)
  have 3: "\<forall>q. q \<notin> set (?SL @ [tmpfp]) \<longrightarrow> map_of (files fs') q = map_of (files fsb) q"
    using fr by (simp add: fs' map_of_put_file)
  have 4: "dirs fs' = dirs fsb" using dr by (simp add: fs' dirs_put_file)
  have 5: "\<forall>u. u \<in> set (urls s @ [?u]) \<longrightarrow> name (lookup ?fm' u) = fname_of u"
    using nm by (auto simp: lookup_upd)
  show ?thesis
    unfolding alloc_fs_inv_def sel sl using 1 2 3 4 5 by blast
qed

lemma alloc_invs_loop:
  "alloc_reg_inv s \<Longrightarrow> alloc_fs_inv d fsb s \<Longrightarrow> alloc_fs_inv d fsb (alloc_loop sys d i args s)"
proof (induction args arbitrary: s i)
  case Nil
  then show ?case by simp
next
  case (Cons arg args)
  have "alloc_reg_inv (alloc_loop sys d i [arg] s)"
    using Cons.prems(1) by (rule alloc_reg_inv_step)
  moreover have "alloc_fs_inv d fsb (alloc_loop sys d i [arg] s)"
    using Cons.prems by (rule alloc_fs_inv_step)
  ultimately
  have "alloc_fs_inv d fsb (alloc_loop sys d (Suc i) args (alloc_loop sys d i [arg] s))"
    by (rule Cons.IH)
  then show ?case by (subst alloc_loop_Cons)
qed

subsection \<open>The file system during dispatch\<close>

lemma length_slots: "length (slots fm us) = length us"
  by (simp add: slots_def)

lemma nth_slots: "i < length us \<Longrightarrow> slots fm us ! i = slot_of fm us i"
  by (simp add: slots_def)

lemma set_remove_nth:
  assumes "distinct xs" and "k < length xs"
  shows "set (take k xs @ drop (Suc k) xs) = set xs - {xs ! k}"
proof -
  have xs: "xs = take k xs @ xs ! k # drop (Suc k) xs"
    using assms(2) by (rule id_take_nth_drop)
  from assms(1) have "distinct (take k xs @ xs ! k # drop (Suc k) xs)"
    using xs by simp
  then have "xs ! k \<notin> set (take k xs @ drop (Suc k) xs)" by auto
  moreover have "set xs = insert (xs ! k) (set (take k xs @ drop (Suc k) xs))"
    by (subst xs) auto
  ultimately show ?thesis by auto
qed

lemma distinct_remove_nth:
  assumes "distinct xs"
  shows "distinct (take k xs @ drop (Suc k) xs)"
proof (cases "k < length xs")
  case True
  then have xs: "xs = take k xs @ xs ! k # drop (Suc k) xs" by (rule id_take_nth_drop)
  from assms have "distinct (take k xs @ xs ! k # drop (Suc k) xs)"
    using xs by simp
  then show ?thesis by auto
next
  case False
  with assms show ?thesis by simp
qed

lemma main_step_other:
  "pc s \<noteq> Spawn \<Longrightarrow> main_step pflag s = Inr s' \<Longrightarrow>
   running s' = running s \<and> spawned s' = spawned s \<and> fsys s' = fsys s"
  by (cases "pc s") (auto simp: main_step_def split: list.splits if_splits)

lemma main_step_Spawn:
  assumes a: "alloc_reg_inv s1" and r: "reg_inv s1 s" and pc: "pc s = Spawn"
    and st: "main_step pflag s = Inr s'"
  shows "spawned s < length (urls s1)
     \<and> running s' = running s
         @ [(urls s1 ! spawned s, slots (filemap s1) (urls s1) ! spawned s, spawned s)]
     \<and> spawned s' = Suc (spawned s) \<and> fsys s' = fsys s"
proof -
  let ?m = "spawned s" and ?U = "urls s1"
  from pc st obtain url rest where Cons: "todo s = url # rest"
    by (cases "todo s") (auto simp: main_step_def)
  from r have td: "todo s = drop ?m ?U" and fm: "\<And>u. filemap s u
             = map_option (\<lambda>e. e\<lparr>n := int (count_list (take ?m ?U) u)\<rparr>) (filemap s1 u)"
    by (simp_all add: reg_inv_def)
  from td Cons have m: "?m < length ?U" by (cases "?m < length ?U") auto
  from td Cons m have url: "url = ?U ! ?m"
    by (simp add: Cons_nth_drop_Suc[symmetric])
  from m have "url \<in> set ?U" unfolding url by simp
  with a obtain e1 where e1: "filemap s1 url = Some e1"
    by (auto simp: alloc_reg_inv_def)
  let ?e = "e1\<lparr>n := int (count_list (take ?m ?U) url)\<rparr>"
  have e: "filemap s url = Some ?e" by (simp add: fm e1)
  have sl: "slots (filemap s1) ?U ! ?m = tmpfiles ?e ! nat (n ?e)"
    using m e1 by (simp add: nth_slots slot_of_def lookup_def url)
  from st pc Cons e have "running s' = running s @ [(url, tmpfiles ?e ! nat (n ?e), ?m)]
      \<and> spawned s' = Suc ?m \<and> fsys s' = fsys s"
    by (auto simp: main_step_def split: if_splits)
  with m sl url show ?thesis by simp
qed

end
